theory Spec2Isabelle
  imports Main "HOL-Library.Word"
begin

section \<open>Node store\<close>

text \<open>
  The container of \<^verbatim>\<open>bst.h\<close> owns its nodes through \<^verbatim>\<open>std::unique_ptr<Node>\<close>: every node
  has exactly one owner, so the owned node graph is a tree value. A \<^verbatim>\<open>unique_ptr<Node>\<close> is
  modelled as \<open>Null\<close> or as the node it owns; the node carries the address of the node object
  and the four fields of \<^verbatim>\<open>struct Node\<close> in their order (\<^verbatim>\<open>data\<close>, \<^verbatim>\<open>left\<close>, \<^verbatim>\<open>right\<close>,
  \<^verbatim>\<open>parent\<close>). A raw \<^verbatim>\<open>Node*\<close> is an address or \<open>None\<close> (the null pointer); it is resolved
  against the tree that owns the nodes, and resolving an address that no live node has is a
  fault. The element type \<^verbatim>\<open>T\<close> is a linearly ordered type whose move leaves the source
  value as it was (such as \<^verbatim>\<open>int\<close>, the element type of the repository's tests).
\<close>

type_synonym addr = nat

datatype 'a uptr = Null | Node addr 'a "'a uptr" "'a uptr" "addr option"

datatype fault = NullDereference | DanglingPointer | IndexOutOfBounds | KeyNotFound

text \<open>\<^verbatim>\<open>unique_ptr::get\<close>: the raw pointer to the owned node.\<close>

fun get :: "'a uptr \<Rightarrow> addr option" where
  "get Null = None"
| "get (Node a d l r p) = Some a"

text \<open>Reading through a raw pointer: the live node at an address, \<open>Null\<close> when there is none.\<close>

fun node_at :: "'a uptr \<Rightarrow> addr \<Rightarrow> 'a uptr" where
  "node_at Null a = Null"
| "node_at (Node b d l r p) a =
     (if a = b then Node b d l r p
      else if node_at l a \<noteq> Null then node_at l a
      else node_at r a)"

text \<open>Writing through a raw pointer: the node at the address is replaced by its image.\<close>

fun update_at :: "addr \<Rightarrow> ('a uptr \<Rightarrow> 'a uptr) \<Rightarrow> 'a uptr \<Rightarrow> 'a uptr" where
  "update_at a f Null = Null"
| "update_at a f (Node b d l r p) =
     (if a = b then f (Node b d l r p) else Node b d (update_at a f l) (update_at a f r) p)"

fun set_data :: "'a \<Rightarrow> 'a uptr \<Rightarrow> 'a uptr" where
  "set_data v Null = Null"
| "set_data v (Node a d l r p) = Node a v l r p"

fun set_left :: "'a uptr \<Rightarrow> 'a uptr \<Rightarrow> 'a uptr" where
  "set_left v Null = Null"
| "set_left v (Node a d l r p) = Node a d v r p"

fun set_right :: "'a uptr \<Rightarrow> 'a uptr \<Rightarrow> 'a uptr" where
  "set_right v Null = Null"
| "set_right v (Node a d l r p) = Node a d l v p"

fun set_parent :: "addr option \<Rightarrow> 'a uptr \<Rightarrow> 'a uptr" where
  "set_parent q Null = Null"
| "set_parent q (Node a d l r p) = Node a d l r q"

text \<open>
  The tree object: \<^verbatim>\<open>root_\<close> and \<^verbatim>\<open>tree_size_\<close> (a 64-bit \<^verbatim>\<open>std::size_t\<close>). \<open>next_addr\<close>
  stands for the allocator behind \<^verbatim>\<open>std::make_unique\<close>: the address of the next node object,
  one that no live node has.
\<close>

record 'a bstree =
  root :: "'a uptr"
  tree_size :: "64 word"
  next_addr :: addr

text \<open>
  \<^verbatim>\<open>base_iterator\<close>: the node pointer \<^verbatim>\<open>ptr_\<close> and the back-pointer \<^verbatim>\<open>tree_\<close> to the
  container, which is either null (\<open>False\<close>) or the tree the iterator came from (\<open>True\<close>).
\<close>

record iterator =
  ptr :: "addr option"
  tree_ref :: bool

definition make_iterator :: "addr option \<Rightarrow> iterator" where
  "make_iterator p = \<lparr>ptr = p, tree_ref = True\<rparr>"

text \<open>\<^verbatim>\<open>operator==\<close> and \<^verbatim>\<open>operator!=\<close> of iterators compare the node pointers only.\<close>

definition iter_eq :: "iterator \<Rightarrow> iterator \<Rightarrow> bool" where
  "iter_eq i j = (ptr i = ptr j)"

definition iter_neq :: "iterator \<Rightarrow> iterator \<Rightarrow> bool" where
  "iter_neq i j = (ptr i \<noteq> ptr j)"

text \<open>\<^verbatim>\<open>operator*\<close>: reads \<^verbatim>\<open>ptr_->data\<close>.\<close>

definition deref :: "'a bstree \<Rightarrow> iterator \<Rightarrow> fault + 'a" where
  "deref s it =
     (case ptr it of
        None \<Rightarrow> Inl NullDereference
      | Some a \<Rightarrow> (case node_at (root s) a of
                     Null \<Rightarrow> Inl DanglingPointer
                   | Node b d l r p \<Rightarrow> Inr d))"

section \<open>Lifecycle and capacity\<close>

definition BinarySearchTree :: "'a bstree" where
  "BinarySearchTree = \<lparr>root = Null, tree_size = 0, next_addr = 0\<rparr>"

definition size_of :: "'a bstree \<Rightarrow> 64 word" where
  "size_of s = tree_size s"

definition empty :: "'a bstree \<Rightarrow> bool" where
  "empty s = (tree_size s = 0)"

definition clear :: "'a bstree \<Rightarrow> 'a bstree" where
  "clear s = s\<lparr>root := Null, tree_size := 0\<rparr>"

section \<open>Lookup\<close>

fun find_node :: "'a::linorder uptr \<Rightarrow> 'a \<Rightarrow> addr option" where
  "find_node Null key = None"
| "find_node (Node a d l r p) key =
     (if key < d then find_node l key
      else if d < key then find_node r key
      else Some a)"

fun find_min :: "'a uptr \<Rightarrow> addr option" where
  "find_min Null = None"
| "find_min (Node a d l r p) = (if l \<noteq> Null then find_min l else Some a)"

fun find_max :: "'a uptr \<Rightarrow> addr option" where
  "find_max Null = None"
| "find_max (Node a d l r p) = (if r \<noteq> Null then find_max r else Some a)"

definition find :: "'a::linorder bstree \<Rightarrow> 'a \<Rightarrow> iterator" where
  "find s key = make_iterator (find_node (root s) key)"

definition contains :: "'a::linorder bstree \<Rightarrow> 'a \<Rightarrow> bool" where
  "contains s key = (find_node (root s) key \<noteq> None)"

definition begin_it :: "'a bstree \<Rightarrow> iterator" where
  "begin_it s = make_iterator (find_min (root s))"

definition end_it :: "'a bstree \<Rightarrow> iterator" where
  "end_it s = make_iterator None"

section \<open>Traversals\<close>

text \<open>A traversal is the list of the values its visitor is called with, in call order.\<close>

fun in_order_helper :: "'a uptr \<Rightarrow> 'a list" where
  "in_order_helper Null = []"
| "in_order_helper (Node a d l r p) = in_order_helper l @ [d] @ in_order_helper r"

fun pre_order_helper :: "'a uptr \<Rightarrow> 'a list" where
  "pre_order_helper Null = []"
| "pre_order_helper (Node a d l r p) = [d] @ pre_order_helper l @ pre_order_helper r"

fun post_order_helper :: "'a uptr \<Rightarrow> 'a list" where
  "post_order_helper Null = []"
| "post_order_helper (Node a d l r p) = post_order_helper l @ post_order_helper r @ [d]"

definition in_order_traversal :: "'a bstree \<Rightarrow> 'a list" where
  "in_order_traversal s = in_order_helper (root s)"

definition pre_order_traversal :: "'a bstree \<Rightarrow> 'a list" where
  "pre_order_traversal s = pre_order_helper (root s)"

definition post_order_traversal :: "'a bstree \<Rightarrow> 'a list" where
  "post_order_traversal s = post_order_helper (root s)"

section \<open>Iterator\<close>

text \<open>
  The second loop of \<^verbatim>\<open>successor()\<close>: climb the parent pointers while the current node is the
  right child of its parent. The loop follows raw pointers, so nothing in its text bounds it:
  the result \<open>None\<close> stands for a run that never leaves the loop.
\<close>

partial_function (option) climb_while_right ::
    "'a uptr \<Rightarrow> addr \<Rightarrow> addr option \<Rightarrow> (fault + addr option) option" where
  "climb_while_right rt cur p =
     (case p of
        None \<Rightarrow> Some (Inr None)
      | Some pa \<Rightarrow>
          (case node_at rt pa of
             Null \<Rightarrow> Some (Inl DanglingPointer)
           | Node b d l r pp \<Rightarrow>
               if get r = Some cur then climb_while_right rt pa pp else Some (Inr (Some pa))))"

partial_function (option) climb_while_left ::
    "'a uptr \<Rightarrow> addr \<Rightarrow> addr option \<Rightarrow> (fault + addr option) option" where
  "climb_while_left rt cur p =
     (case p of
        None \<Rightarrow> Some (Inr None)
      | Some pa \<Rightarrow>
          (case node_at rt pa of
             Null \<Rightarrow> Some (Inl DanglingPointer)
           | Node b d l r pp \<Rightarrow>
               if get l = Some cur then climb_while_left rt pa pp else Some (Inr (Some pa))))"

declare climb_while_right.simps [code]
declare climb_while_left.simps [code]

text \<open>
  \<^verbatim>\<open>successor()\<close> and \<^verbatim>\<open>predecessor()\<close>: the new value of \<^verbatim>\<open>ptr_\<close>. Their first loop, down
  the left spine of the right subtree (the right spine of the left subtree), is the loop of
  \<^verbatim>\<open>find_min\<close> (\<^verbatim>\<open>find_max\<close>). Both read \<^verbatim>\<open>ptr_->right\<close> (\<^verbatim>\<open>ptr_->left\<close>) without a null check.
\<close>

definition successor :: "'a uptr \<Rightarrow> addr option \<Rightarrow> (fault + addr option) option" where
  "successor rt q =
     (case q of
        None \<Rightarrow> Some (Inl NullDereference)
      | Some a \<Rightarrow>
          (case node_at rt a of
             Null \<Rightarrow> Some (Inl DanglingPointer)
           | Node b d l r p \<Rightarrow>
               if r \<noteq> Null then Some (Inr (find_min r)) else climb_while_right rt a p))"

definition predecessor :: "'a uptr \<Rightarrow> addr option \<Rightarrow> (fault + addr option) option" where
  "predecessor rt q =
     (case q of
        None \<Rightarrow> Some (Inl NullDereference)
      | Some a \<Rightarrow>
          (case node_at rt a of
             Null \<Rightarrow> Some (Inl DanglingPointer)
           | Node b d l r p \<Rightarrow>
               if l \<noteq> Null then Some (Inr (find_max l)) else climb_while_left rt a p))"

text \<open>
  The four stepping operators. Each returns the iterator after the step; the post-forms also
  return the copy \<^verbatim>\<open>tmp\<close> taken before the step (first component).
\<close>

definition pre_increment :: "'a bstree \<Rightarrow> iterator \<Rightarrow> (fault + iterator) option" where
  "pre_increment s it =
     (case successor (root s) (ptr it) of
        None \<Rightarrow> None
      | Some (Inl e) \<Rightarrow> Some (Inl e)
      | Some (Inr q) \<Rightarrow> Some (Inr (it\<lparr>ptr := q\<rparr>)))"

definition post_increment :: "'a bstree \<Rightarrow> iterator \<Rightarrow> (fault + iterator \<times> iterator) option" where
  "post_increment s it =
     (case successor (root s) (ptr it) of
        None \<Rightarrow> None
      | Some (Inl e) \<Rightarrow> Some (Inl e)
      | Some (Inr q) \<Rightarrow> Some (Inr (it, it\<lparr>ptr := q\<rparr>)))"

definition pre_decrement :: "'a bstree \<Rightarrow> iterator \<Rightarrow> (fault + iterator) option" where
  "pre_decrement s it =
     (if ptr it = None then
        (if tree_ref it \<and> \<not> empty s then Some (Inr (it\<lparr>ptr := find_max (root s)\<rparr>))
         else Some (Inr it))
      else
        (case predecessor (root s) (ptr it) of
           None \<Rightarrow> None
         | Some (Inl e) \<Rightarrow> Some (Inl e)
         | Some (Inr q) \<Rightarrow> Some (Inr (it\<lparr>ptr := q\<rparr>))))"

definition post_decrement :: "'a bstree \<Rightarrow> iterator \<Rightarrow> (fault + iterator \<times> iterator) option" where
  "post_decrement s it =
     (case predecessor (root s) (ptr it) of
        None \<Rightarrow> None
      | Some (Inl e) \<Rightarrow> Some (Inl e)
      | Some (Inr q) \<Rightarrow> Some (Inr (it, it\<lparr>ptr := q\<rparr>)))"

section \<open>Modifiers\<close>

text \<open>
  The descent of \<^verbatim>\<open>emplace\<close>: \<open>Inl\<close> is the early return at an equivalent node, \<open>Inr\<close> the
  value of \<^verbatim>\<open>parent\<close> when the loop ends.
\<close>

fun emplace_loop :: "'a::linorder uptr \<Rightarrow> addr option \<Rightarrow> 'a \<Rightarrow> addr + addr option" where
  "emplace_loop Null parent val = Inr parent"
| "emplace_loop (Node a d l r p) parent val =
     (if val < d then emplace_loop l (Some a) val
      else if d < val then emplace_loop r (Some a) val
      else Inl a)"

text \<open>The new node (at address \<open>a\<close>) is hung below the node \<^verbatim>\<open>parent\<close> points to.\<close>

fun attach :: "addr \<Rightarrow> addr \<Rightarrow> 'a::linorder \<Rightarrow> 'a uptr \<Rightarrow> 'a uptr" where
  "attach pa a val Null = Null"
| "attach pa a val (Node b d l r p) =
     (if val < d then Node b d (Node a val Null Null (Some pa)) r p
      else Node b d l (Node a val Null Null (Some pa)) p)"

definition emplace :: "'a::linorder \<Rightarrow> 'a bstree \<Rightarrow> fault + ((iterator \<times> bool) \<times> 'a bstree)" where
  "emplace val s =
     (if root s = Null then
        Inr ((make_iterator (Some (next_addr s)), True),
             s\<lparr>root := Node (next_addr s) val Null Null None,
               tree_size := tree_size s + 1,
               next_addr := next_addr s + 1\<rparr>)
      else
        (case emplace_loop (root s) None val of
           Inl current \<Rightarrow> Inr ((make_iterator (Some current), False), s)
         | Inr None \<Rightarrow> Inl NullDereference
         | Inr (Some pa) \<Rightarrow>
             (case node_at (root s) pa of
                Null \<Rightarrow> Inl DanglingPointer
              | Node b d l r p \<Rightarrow>
                  Inr ((make_iterator (Some (next_addr s)), True),
                       s\<lparr>root := update_at pa (attach pa (next_addr s) val) (root s),
                         tree_size := tree_size s + 1,
                         next_addr := next_addr s + 1\<rparr>))))"

definition insert_value :: "'a::linorder \<Rightarrow> 'a bstree \<Rightarrow> fault + (iterator \<times> 'a bstree)" where
  "insert_value val s =
     (case emplace val s of
        Inl e \<Rightarrow> Inl e
      | Inr ((it, inserted), s') \<Rightarrow> Inr (it, s'))"

text \<open>The initializer-list constructor: \<^verbatim>\<open>insert\<close> for each value of the list, in order.\<close>

fun insert_each :: "'a::linorder list \<Rightarrow> 'a bstree \<Rightarrow> fault + 'a bstree" where
  "insert_each [] s = Inr s"
| "insert_each (v # vs) s =
     (case insert_value v s of
        Inl e \<Rightarrow> Inl e
      | Inr (it, s') \<Rightarrow> insert_each vs s')"

definition BinarySearchTree_ilist :: "'a::linorder list \<Rightarrow> fault + 'a bstree" where
  "BinarySearchTree_ilist ilist = insert_each ilist BinarySearchTree"

text \<open>
  A \<^verbatim>\<open>std::unique_ptr<Node>&\<close>: the owning slot a reference names, which is \<^verbatim>\<open>root_\<close> or the
  \<^verbatim>\<open>left\<close> or \<^verbatim>\<open>right\<close> field of the node at an address.
\<close>

datatype link = RootLink | LeftLink addr | RightLink addr

definition get_parent_link :: "'a uptr \<Rightarrow> addr \<Rightarrow> fault + link" where
  "get_parent_link rt a =
     (case node_at rt a of
        Null \<Rightarrow> Inl DanglingPointer
      | Node b d l r p \<Rightarrow>
          (case p of
             None \<Rightarrow> Inr RootLink
           | Some pa \<Rightarrow>
               (case node_at rt pa of
                  Null \<Rightarrow> Inl DanglingPointer
                | Node pb pd pl pr pp \<Rightarrow>
                    if get pl = Some a then Inr (LeftLink pa) else Inr (RightLink pa))))"

text \<open>Assigning to an owning slot releases the node the slot owned before.\<close>

fun write_link :: "link \<Rightarrow> 'a uptr \<Rightarrow> 'a uptr \<Rightarrow> 'a uptr" where
  "write_link RootLink v rt = v"
| "write_link (LeftLink pa) v rt = update_at pa (set_left v) rt"
| "write_link (RightLink pa) v rt = update_at pa (set_right v) rt"

definition detach_from_parent :: "'a uptr \<Rightarrow> addr \<Rightarrow> fault + 'a uptr" where
  "detach_from_parent rt a =
     (case get_parent_link rt a of
        Inl e \<Rightarrow> Inl e
      | Inr k \<Rightarrow> Inr (write_link k Null rt))"

text \<open>
  \<^verbatim>\<open>erase_node_recursive\<close> works on the slot \<^verbatim>\<open>current_node\<close> and on \<^verbatim>\<open>tree_size_\<close>; it returns
  the new content of the slot and the new count.
\<close>

fun erase_node_recursive :: "'a::linorder uptr \<Rightarrow> 'a \<Rightarrow> 64 word \<Rightarrow> 'a uptr \<times> 64 word" where
  "erase_node_recursive Null key n = (Null, n)"
| "erase_node_recursive (Node a d l r p) key n =
     (if key < d then
        (case erase_node_recursive l key n of (l', n') \<Rightarrow> (Node a d l' r p, n'))
      else if d < key then
        (case erase_node_recursive r key n of (r', n') \<Rightarrow> (Node a d l r' p, n'))
      else if l = Null \<or> r = Null then
        (set_parent p (if l \<noteq> Null then l else r), n - 1)
      else (Node a d l r p, n))"

text \<open>
  \<^verbatim>\<open>erase\<close>, with its cases in the order of the source. The iterator to return is computed
  first, by \<^verbatim>\<open>operator++\<close> on an iterator to the node found. A leaf is detached from the slot
  that owns it. With one child, the child's \<^verbatim>\<open>parent\<close> is set to the erased node's parent and
  the child is moved into the slot that owns the erased node. With two children, the value
  of the leftmost node \<open>m\<close> of the right subtree is assigned to the erased node (the move
  leaves the value of \<open>m\<close> as it was), \<^verbatim>\<open>erase_node_recursive\<close> runs on the slot
  \<^verbatim>\<open>node_to_erase->right\<close> with the value of \<open>m\<close> as its key, and \<^verbatim>\<open>tree_size_\<close> is incremented
  to make up for the decrement that follows in every case.
\<close>

definition erase :: "'a::linorder \<Rightarrow> 'a bstree \<Rightarrow> (fault + iterator \<times> 'a bstree) option" where
  "erase key s =
     (case find_node (root s) key of
        None \<Rightarrow> Some (Inr (end_it s, s))
      | Some a \<Rightarrow>
          (case pre_increment s (make_iterator (Some a)) of
             None \<Rightarrow> None
           | Some (Inl e) \<Rightarrow> Some (Inl e)
           | Some (Inr next_node_it) \<Rightarrow>
               (case node_at (root s) a of
                  Null \<Rightarrow> Some (Inl DanglingPointer)
                | Node b d l r p \<Rightarrow>
                    if l = Null \<and> r = Null then
                      (case detach_from_parent (root s) a of
                         Inl e \<Rightarrow> Some (Inl e)
                       | Inr rt' \<Rightarrow>
                           Some (Inr (next_node_it, s\<lparr>root := rt', tree_size := tree_size s - 1\<rparr>)))
                    else if l = Null \<or> r = Null then
                      (case get_parent_link (root s) a of
                         Inl e \<Rightarrow> Some (Inl e)
                       | Inr k \<Rightarrow>
                           Some (Inr (next_node_it,
                             s\<lparr>root := write_link k (set_parent p (if l \<noteq> Null then l else r)) (root s),
                               tree_size := tree_size s - 1\<rparr>)))
                    else
                      (case find_min r of
                         None \<Rightarrow> Some (Inl NullDereference)
                       | Some m \<Rightarrow>
                           (case node_at (root s) m of
                              Null \<Rightarrow> Some (Inl DanglingPointer)
                            | Node mb md ml mr mp \<Rightarrow>
                                (case erase_node_recursive r md (tree_size s) of
                                   (r', n') \<Rightarrow>
                                     Some (Inr (next_node_it,
                                       s\<lparr>root := update_at a (set_right r') (update_at a (set_data md) (root s)),
                                         tree_size := n' + 1 - 1\<rparr>))))))))"

section \<open>Tree builder\<close>

text \<open>
  The loop that fills \<^verbatim>\<open>inorder_map\<close>: position \<open>i\<close> is stored under the value at that
  position, so a later equal value overwrites an earlier one. The \<^verbatim>\<open>int\<close> positions of the
  source are integers here (the sequences have fewer than \<open>2\<^sup>3\<^sup>1\<close> elements).
\<close>

fun fill_inorder_map :: "'a list \<Rightarrow> int \<Rightarrow> ('a \<rightharpoonup> int) \<Rightarrow> ('a \<rightharpoonup> int)" where
  "fill_inorder_map [] i m = m"
| "fill_inorder_map (x # xs) i m = fill_inorder_map xs (i + 1) (m(x \<mapsto> i))"

text \<open>
  \<^verbatim>\<open>build_from_pre_in\<close> returns the subtree, the new value of the reference parameter
  \<^verbatim>\<open>pre_idx\<close> and the next free address. Reading \<^verbatim>\<open>preorder[pre_idx]\<close> outside the vector and
  \<^verbatim>\<open>inorder_map.at\<close> on a missing key are faults. The recursion is not bounded by its
  arguments, so \<open>None\<close> stands for a call that never returns.
\<close>

partial_function (option) build_from_pre_in ::
    "'a list \<Rightarrow> int \<Rightarrow> ('a \<rightharpoonup> int) \<Rightarrow> int \<Rightarrow> int \<Rightarrow> addr option \<Rightarrow> addr
       \<Rightarrow> (fault + 'a uptr \<times> int \<times> addr) option" where
  "build_from_pre_in preorder pre_idx inorder_map in_start in_end parent free =
     (if in_start > in_end then Some (Inr (Null, pre_idx, free))
      else if pre_idx < 0 \<or> int (length preorder) \<le> pre_idx then Some (Inl IndexOutOfBounds)
      else
        (case inorder_map (preorder ! nat pre_idx) of
           None \<Rightarrow> Some (Inl KeyNotFound)
         | Some in_root_idx \<Rightarrow>
             Option.bind
               (build_from_pre_in preorder (pre_idx + 1) inorder_map in_start (in_root_idx - 1)
                  (Some free) (free + 1))
               (\<lambda>res_l. case res_l of
                  Inl e \<Rightarrow> Some (Inl e)
                | Inr (l, idx_l, free_l) \<Rightarrow>
                    Option.bind
                      (build_from_pre_in preorder idx_l inorder_map (in_root_idx + 1) in_end
                         (Some free) free_l)
                      (\<lambda>res_r. case res_r of
                         Inl e \<Rightarrow> Some (Inl e)
                       | Inr (r, idx_r, free_r) \<Rightarrow>
                           Some (Inr (Node free (preorder ! nat pre_idx) l r parent,
                                      idx_r, free_r))))))"

partial_function (option) build_from_post_in ::
    "'a list \<Rightarrow> int \<Rightarrow> ('a \<rightharpoonup> int) \<Rightarrow> int \<Rightarrow> int \<Rightarrow> addr option \<Rightarrow> addr
       \<Rightarrow> (fault + 'a uptr \<times> int \<times> addr) option" where
  "build_from_post_in postorder post_idx inorder_map in_start in_end parent free =
     (if in_start > in_end then Some (Inr (Null, post_idx, free))
      else if post_idx < 0 \<or> int (length postorder) \<le> post_idx then Some (Inl IndexOutOfBounds)
      else
        (case inorder_map (postorder ! nat post_idx) of
           None \<Rightarrow> Some (Inl KeyNotFound)
         | Some in_root_idx \<Rightarrow>
             Option.bind
               (build_from_post_in postorder (post_idx - 1) inorder_map (in_root_idx + 1) in_end
                  (Some free) (free + 1))
               (\<lambda>res_r. case res_r of
                  Inl e \<Rightarrow> Some (Inl e)
                | Inr (r, idx_r, free_r) \<Rightarrow>
                    Option.bind
                      (build_from_post_in postorder idx_r inorder_map in_start (in_root_idx - 1)
                         (Some free) free_r)
                      (\<lambda>res_l. case res_l of
                         Inl e \<Rightarrow> Some (Inl e)
                       | Inr (l, idx_l, free_l) \<Rightarrow>
                           Some (Inr (Node free (postorder ! nat post_idx) l r parent,
                                      idx_l, free_l))))))"

declare build_from_pre_in.simps [code]
declare build_from_post_in.simps [code]

text \<open>The constructor from a pre-order and an in-order sequence.\<close>

definition BinarySearchTree_pre_in :: "'a list \<Rightarrow> 'a list \<Rightarrow> (fault + 'a bstree) option" where
  "BinarySearchTree_pre_in preorder inorder =
     (if preorder = [] \<or> length preorder \<noteq> length inorder then Some (Inr BinarySearchTree)
      else
        (case build_from_pre_in preorder 0 (fill_inorder_map inorder 0 Map.empty)
                0 (int (length inorder) - 1) None 0 of
           None \<Rightarrow> None
         | Some (Inl e) \<Rightarrow> Some (Inl e)
         | Some (Inr (rt, idx, free)) \<Rightarrow>
             Some (Inr \<lparr>root = rt, tree_size = of_nat (length preorder), next_addr = free\<rparr>)))"

text \<open>The constructor from an in-order and a post-order sequence (and the dummy flag).\<close>

definition BinarySearchTree_in_post :: "'a list \<Rightarrow> 'a list \<Rightarrow> (fault + 'a bstree) option" where
  "BinarySearchTree_in_post inorder postorder =
     (if postorder = [] \<or> length postorder \<noteq> length inorder then Some (Inr BinarySearchTree)
      else
        (case build_from_post_in postorder (int (length postorder) - 1)
                (fill_inorder_map inorder 0 Map.empty) 0 (int (length inorder) - 1) None 0 of
           None \<Rightarrow> None
         | Some (Inl e) \<Rightarrow> Some (Inl e)
         | Some (Inr (rt, idx, free)) \<Rightarrow>
             Some (Inr \<lparr>root = rt, tree_size = of_nat (length postorder), next_addr = free\<rparr>)))"

section \<open>Iteration over the range\<close>

text \<open>
  The loop of a range-based \<^verbatim>\<open>for\<close> over the container, as the repository's tests run it:
  from \<^verbatim>\<open>begin()\<close>, while the iterator differs from \<^verbatim>\<open>end()\<close>, read the element and step.
  The result is the list of the elements read.
\<close>

partial_function (option) range_loop ::
    "'a bstree \<Rightarrow> iterator \<Rightarrow> 'a list \<Rightarrow> (fault + 'a list) option" where
  "range_loop s it acc =
     (if iter_neq it (end_it s) then
        (case deref s it of
           Inl e \<Rightarrow> Some (Inl e)
         | Inr d \<Rightarrow>
             (case pre_increment s it of
                None \<Rightarrow> None
              | Some (Inl e) \<Rightarrow> Some (Inl e)
              | Some (Inr it') \<Rightarrow> range_loop s it' (acc @ [d])))
      else Some (Inr acc))"

declare range_loop.simps [code]

definition range_for :: "'a bstree \<Rightarrow> (fault + 'a list) option" where
  "range_for s = range_loop s (begin_it s) []"

section \<open>Invariants\<close>

text \<open>The addresses of the live nodes, in in-order.\<close>

fun addrs :: "'a uptr \<Rightarrow> addr list" where
  "addrs Null = []"
| "addrs (Node a d l r p) = addrs l @ [a] @ addrs r"

text \<open>Every \<^verbatim>\<open>parent\<close> field holds the address of the node that owns the node.\<close>

fun parents_ok :: "addr option \<Rightarrow> 'a uptr \<Rightarrow> bool" where
  "parents_ok q Null = True"
| "parents_ok q (Node a d l r p) = (p = q \<and> parents_ok (Some a) l \<and> parents_ok (Some a) r)"

text \<open>
  The ordering invariant of the data model: below every node, the values of the left subtree
  are strictly less than the node's value, those of the right subtree strictly greater.
\<close>

fun ordered :: "'a::linorder uptr \<Rightarrow> bool" where
  "ordered Null = True"
| "ordered (Node a d l r p) =
     (list_all (\<lambda>x. x < d) (in_order_helper l) \<and> list_all (\<lambda>x. d < x) (in_order_helper r)
      \<and> ordered l \<and> ordered r)"

text \<open>
  The well-formed states: distinct live nodes have distinct addresses, the parent pointers
  are right, the allocator hands out addresses no live node has, and the cached count is the
  number of nodes (as a \<^verbatim>\<open>size_t\<close>).
\<close>

definition wellformed :: "'a bstree \<Rightarrow> bool" where
  "wellformed s =
     (distinct (addrs (root s)) \<and> parents_ok None (root s)
      \<and> list_all (\<lambda>a. a < next_addr s) (addrs (root s))
      \<and> tree_size s = of_nat (length (addrs (root s))))"

section \<open>Trees of the test suite\<close>

text \<open>The states that the tests reach by inserting the listed values into an empty tree.\<close>

definition tree_20_10_30 :: "int bstree" where
  "tree_20_10_30 =
     \<lparr>root = Node 0 20 (Node 1 10 Null Null (Some 0)) (Node 2 30 Null Null (Some 0)) None,
      tree_size = 3, next_addr = 3\<rparr>"

definition tree_50_30_70 :: "int bstree" where
  "tree_50_30_70 =
     \<lparr>root = Node 0 50 (Node 1 30 Null Null (Some 0)) (Node 2 70 Null Null (Some 0)) None,
      tree_size = 3, next_addr = 3\<rparr>"

definition tree_10_5_15_3_7_12_18 :: "int bstree" where
  "tree_10_5_15_3_7_12_18 =
     \<lparr>root = Node 0 10
        (Node 1 5 (Node 3 3 Null Null (Some 1)) (Node 4 7 Null Null (Some 1)) (Some 0))
        (Node 2 15 (Node 5 12 Null Null (Some 2)) (Node 6 18 Null Null (Some 2)) (Some 0))
        None,
      tree_size = 7, next_addr = 7\<rparr>"

definition tree_test_erase :: "int bstree" where
  "tree_test_erase =
     \<lparr>root = Node 0 50
        (Node 1 30 (Node 3 20 Null Null (Some 1))
           (Node 4 40 (Node 7 35 Null Null (Some 4)) (Node 8 45 Null Null (Some 4)) (Some 1))
           (Some 0))
        (Node 2 70 (Node 5 60 Null Null (Some 2)) (Node 6 80 Null Null (Some 2)) (Some 0))
        None,
      tree_size = 9, next_addr = 9\<rparr>"

section \<open>Reading and writing through addresses\<close>

lemma node_at_absent: "a \<notin> set (addrs t) \<Longrightarrow> node_at t a = Null"
  by (induction t) auto

lemma update_at_absent: "a \<notin> set (addrs t) \<Longrightarrow> update_at a f t = t"
  by (induction t) auto

lemma node_at_addr: "node_at t a = Node b d l r p \<Longrightarrow> b = a \<and> a \<in> set (addrs t)"
  by (induction t) (auto split: if_splits)

lemma node_at_Null_iff [simp]: "node_at t a = Null \<longleftrightarrow> a \<notin> set (addrs t)"
  by (induction t) auto

lemma node_at_present:
  assumes "a \<in> set (addrs t)"
  shows "\<exists>d l r p. node_at t a = Node a d l r p"
proof (cases "node_at t a")
  case Null
  with assms show ?thesis by (simp add: node_at_Null_iff)
next
  case (Node b d l r p)
  then show ?thesis using node_at_addr [OF Node] by simp
qed

lemma node_at_left:
  "a \<in> set (addrs l) \<Longrightarrow> a \<noteq> b \<Longrightarrow> node_at (Node b d l r p) a = node_at l a"
  by (simp add: node_at_Null_iff)

lemma node_at_right:
  "a \<notin> set (addrs l) \<Longrightarrow> a \<noteq> b \<Longrightarrow> node_at (Node b d l r p) a = node_at r a"
  by (simp add: node_at_absent)

lemma get_in_addrs: "get t = Some a \<Longrightarrow> a \<in> set (addrs t)"
  by (cases t) auto

lemma node_at_self: "get t = Some a \<Longrightarrow> node_at t a = t"
  by (cases t) auto

lemma addrs_node_at_subset: "set (addrs (node_at t a)) \<subseteq> set (addrs t)"
  by (induction t) auto

lemma node_at_node_at:
  "distinct (addrs t) \<Longrightarrow> m \<in> set (addrs (node_at t a)) \<Longrightarrow> node_at t m = node_at (node_at t a) m"
proof (induction t)
  case Null
  then show ?case by simp
next
  case (Node b d l r p)
  show ?case
  proof (cases "a = b")
    case True
    then show ?thesis by simp
  next
    case ab: False
    show ?thesis
    proof (cases "a \<in> set (addrs l)")
      case True
      then have na: "node_at (Node b d l r p) a = node_at l a"
        using ab by (simp add: node_at_left)
      with Node.prems have m: "m \<in> set (addrs (node_at l a))" by simp
      then have ml: "m \<in> set (addrs l)" using addrs_node_at_subset by fastforce
      with Node.prems have "m \<noteq> b" by auto
      with ml have "node_at (Node b d l r p) m = node_at l m" by (simp add: node_at_left)
      with Node.IH(1) Node.prems m na show ?thesis by simp
    next
      case False
      then have na: "node_at (Node b d l r p) a = node_at r a"
        using ab by (simp add: node_at_right)
      with Node.prems have m: "m \<in> set (addrs (node_at r a))" by simp
      then have mr: "m \<in> set (addrs r)" using addrs_node_at_subset by fastforce
      with Node.prems have "m \<noteq> b" "m \<notin> set (addrs l)" by auto
      then have "node_at (Node b d l r p) m = node_at r m" by (simp add: node_at_right)
      with Node.IH(2) Node.prems m na show ?thesis by simp
    qed
  qed
qed

lemma in_order_length: "length (in_order_helper t) = length (addrs t)"
  by (induction t) auto

lemma ordered_sorted: "ordered t \<longleftrightarrow> sorted_wrt (<) (in_order_helper t)"
  by (induction t) (fastforce simp: sorted_wrt_append list_all_iff)+

lemma find_node_in_addrs: "find_node t k = Some a \<Longrightarrow> a \<in> set (addrs t)"
  by (induction t) (auto split: if_splits)

lemma find_node_node_at:
  "distinct (addrs t) \<Longrightarrow> find_node t k = Some a \<Longrightarrow>
     \<exists>l r p. node_at t a = Node a k l r p"
proof (induction t)
  case Null
  then show ?case by simp
next
  case (Node b d l r p)
  show ?case
  proof (cases "k < d")
    case True
    with Node.prems have f: "find_node l k = Some a" by simp
    then have "a \<in> set (addrs l)" by (rule find_node_in_addrs)
    moreover with Node.prems have "a \<noteq> b" by auto
    ultimately show ?thesis using Node.IH(1) Node.prems f by (auto simp: node_at_left)
  next
    case nl: False
    show ?thesis
    proof (cases "d < k")
      case True
      with nl Node.prems have f: "find_node r k = Some a" by simp
      then have "a \<in> set (addrs r)" by (rule find_node_in_addrs)
      moreover with Node.prems have "a \<noteq> b" "a \<notin> set (addrs l)" by auto
      ultimately show ?thesis using Node.IH(2) Node.prems f by (auto simp: node_at_right)
    next
      case False
      with nl Node.prems show ?thesis by auto
    qed
  qed
qed

lemma find_node_iff: "ordered t \<Longrightarrow> (find_node t k \<noteq> None) = (k \<in> set (in_order_helper t))"
  by (induction t) (auto simp: list_all_iff)

section \<open>Lookup, duplicate insertion, absent keys, degenerate builder input\<close>

lemma emplace_loop_find_node:
  "find_node t k = Some a \<Longrightarrow> emplace_loop t q k = Inl a"
  by (induction t arbitrary: q) (auto split: if_splits)

text \<open>
  Claim C5. If the key \<open>k\<close> is already present (\<^verbatim>\<open>contains(k)\<close> holds), then \<^verbatim>\<open>emplace(k)\<close>
  and \<^verbatim>\<open>insert(k)\<close> change nothing: the state after the call is the state before it, so the
  element count and the contents are the same. The position returned is the one \<^verbatim>\<open>find(k)\<close>
  returns, which holds the existing element, and the flag of \<^verbatim>\<open>emplace\<close> is false.
\<close>

theorem emplace_present_no_mutation:
  assumes "contains s k"
  shows "emplace k s = Inr ((find s k, False), s)
         \<and> insert_value k s = Inr (find s k, s)
         \<and> (distinct (addrs (root s)) \<longrightarrow> deref s (find s k) = Inr k)"
proof -
  from assms obtain a where a: "find_node (root s) k = Some a"
    by (auto simp: contains_def)
  then have nn: "root s \<noteq> Null" by auto
  from a have loop: "emplace_loop (root s) None k = Inl a"
    by (rule emplace_loop_find_node)
  have e: "emplace k s = Inr ((find s k, False), s)"
    using nn loop a by (simp add: emplace_def find_def)
  then have i: "insert_value k s = Inr (find s k, s)"
    by (simp add: insert_value_def)
  have "deref s (find s k) = Inr k" if "distinct (addrs (root s))"
    using find_node_node_at [OF that a] a
    by (auto simp: deref_def find_def make_iterator_def)
  with e i show ?thesis by simp
qed

lemma tree_20_10_30_built: "BinarySearchTree_ilist [20, 10, 30] = Inr tree_20_10_30"
  by (simp add: BinarySearchTree_ilist_def BinarySearchTree_def insert_value_def emplace_def
      tree_20_10_30_def)

lemma tree_50_30_70_built: "BinarySearchTree_ilist [50, 30, 70] = Inr tree_50_30_70"
  by (simp add: BinarySearchTree_ilist_def BinarySearchTree_def insert_value_def emplace_def
      tree_50_30_70_def)

lemma tree_10_5_15_3_7_12_18_built:
  "BinarySearchTree_ilist [10, 5, 15, 3, 7, 12, 18] = Inr tree_10_5_15_3_7_12_18"
  by (simp add: BinarySearchTree_ilist_def BinarySearchTree_def insert_value_def emplace_def
      tree_10_5_15_3_7_12_18_def)

theorem emplace_present_no_mutation_witness:
  "contains tree_20_10_30 20
   \<and> emplace 20 tree_20_10_30 = Inr ((\<lparr>ptr = Some 0, tree_ref = True\<rparr>, False), tree_20_10_30)
   \<and> insert_value 20 tree_20_10_30 = Inr (\<lparr>ptr = Some 0, tree_ref = True\<rparr>, tree_20_10_30)
   \<and> deref tree_20_10_30 \<lparr>ptr = Some 0, tree_ref = True\<rparr> = Inr 20"
proof -
  have h: "contains tree_20_10_30 20" by (simp add: contains_def tree_20_10_30_def)
  have f: "find tree_20_10_30 20 = \<lparr>ptr = Some 0, tree_ref = True\<rparr>"
    by (simp add: find_def make_iterator_def tree_20_10_30_def)
  have d: "distinct (addrs (root tree_20_10_30))" by (simp add: tree_20_10_30_def)
  from emplace_present_no_mutation [OF h] show ?thesis using h d by (simp add: f)
qed

text \<open>
  Claim C6. If the key \<open>k\<close> is not present (\<^verbatim>\<open>contains(k)\<close> is false), then \<^verbatim>\<open>erase(k)\<close>
  returns the end iterator and the state it was called in, unchanged; the result is a value,
  not a fault.
\<close>

theorem erase_absent_unchanged:
  assumes "\<not> contains s k"
  shows "erase k s = Some (Inr (end_it s, s))"
  using assms by (simp add: erase_def contains_def)

theorem erase_absent_unchanged_witness:
  "\<not> contains tree_20_10_30 999
   \<and> erase 999 tree_20_10_30 = Some (Inr (\<lparr>ptr = None, tree_ref = True\<rparr>, tree_20_10_30))"
proof -
  have h: "\<not> contains tree_20_10_30 999" by (simp add: contains_def tree_20_10_30_def)
  from erase_absent_unchanged [OF h] show ?thesis
    using h by (simp add: end_it_def make_iterator_def)
qed

text \<open>
  Claim C9. When the two input sequences are empty or differ in length, both constructors
  from a pair of traversals return the empty tree (size 0, no elements) and not a fault.
\<close>

theorem builders_degenerate_input:
  fixes xs ys :: "'a list"
  assumes "xs = [] \<or> ys = [] \<or> length xs \<noteq> length ys"
  shows "BinarySearchTree_pre_in xs ys = Some (Inr BinarySearchTree)
         \<and> BinarySearchTree_in_post xs ys = Some (Inr BinarySearchTree)
         \<and> size_of (BinarySearchTree :: 'a bstree) = 0
         \<and> empty (BinarySearchTree :: 'a bstree)
         \<and> in_order_traversal (BinarySearchTree :: 'a bstree) = []"
  using assms
  by (auto simp: BinarySearchTree_pre_in_def BinarySearchTree_in_post_def size_of_def empty_def
      in_order_traversal_def BinarySearchTree_def)

theorem builders_degenerate_input_witness:
  "length [1, 2, 3 :: int] \<noteq> length [1, 2 :: int]
   \<and> BinarySearchTree_pre_in [1, 2, 3 :: int] [1, 2] = Some (Inr BinarySearchTree)
   \<and> BinarySearchTree_in_post [1, 2, 3 :: int] [1, 2] = Some (Inr BinarySearchTree)"
proof -
  have h: "[1, 2, 3 :: int] = [] \<or> [1, 2 :: int] = [] \<or> length [1, 2, 3 :: int] \<noteq> length [1, 2 :: int]"
    by simp
  from builders_degenerate_input [OF h] show ?thesis by simp
qed

text \<open>
  Claim C10. In every state, \<^verbatim>\<open>contains(k)\<close> is true exactly when \<^verbatim>\<open>find(k)\<close> differs from
  \<^verbatim>\<open>end()\<close>; when it differs (and live nodes have distinct addresses), the position found
  holds a value that is neither less nor greater than \<open>k\<close>. On the empty tree \<^verbatim>\<open>contains\<close> is
  false and \<^verbatim>\<open>find\<close> returns \<^verbatim>\<open>end()\<close>.
\<close>

theorem contains_iff_find:
  "(contains s k \<longleftrightarrow> iter_neq (find s k) (end_it s))
   \<and> (distinct (addrs (root s)) \<longrightarrow> iter_neq (find s k) (end_it s) \<longrightarrow>
        (\<exists>d. deref s (find s k) = Inr d \<and> \<not> d < k \<and> \<not> k < d))
   \<and> \<not> contains BinarySearchTree k
   \<and> iter_eq (find BinarySearchTree k) (end_it BinarySearchTree)"
proof -
  have 1: "contains s k \<longleftrightarrow> iter_neq (find s k) (end_it s)"
    by (simp add: contains_def find_def end_it_def iter_neq_def make_iterator_def)
  have 2: "\<exists>d. deref s (find s k) = Inr d \<and> \<not> d < k \<and> \<not> k < d"
    if d: "distinct (addrs (root s))" and n: "iter_neq (find s k) (end_it s)"
  proof -
    from n obtain a where a: "find_node (root s) k = Some a"
      by (auto simp: find_def end_it_def iter_neq_def make_iterator_def)
    from find_node_node_at [OF d a] a show ?thesis
      by (auto simp: deref_def find_def make_iterator_def)
  qed
  have 3: "\<not> contains BinarySearchTree k"
    by (simp add: contains_def BinarySearchTree_def)
  have 4: "iter_eq (find BinarySearchTree k) (end_it BinarySearchTree)"
    by (simp add: find_def end_it_def iter_eq_def make_iterator_def BinarySearchTree_def)
  from 1 2 3 4 show ?thesis by blast
qed

theorem contains_iff_find_witness:
  "distinct (addrs (root tree_20_10_30))
   \<and> contains tree_20_10_30 10
   \<and> iter_neq (find tree_20_10_30 10) (end_it tree_20_10_30)
   \<and> deref tree_20_10_30 (find tree_20_10_30 10) = Inr 10"
proof -
  have d: "distinct (addrs (root tree_20_10_30))" by (simp add: tree_20_10_30_def)
  have c: "contains tree_20_10_30 10" by (simp add: contains_def tree_20_10_30_def)
  from contains_iff_find [of tree_20_10_30 10] d c show ?thesis by auto
qed

section \<open>Stepping back from the end\<close>

lemma in_order_Nil_iff [simp]: "in_order_helper t = [] \<longleftrightarrow> t = Null"
  by (cases t) auto

lemma addrs_Nil_iff [simp]: "addrs t = [] \<longleftrightarrow> t = Null"
  by (cases t) auto

lemma find_max_node_at:
  "distinct (addrs t) \<Longrightarrow> t \<noteq> Null \<Longrightarrow>
     \<exists>l p. find_max t = Some (last (addrs t))
       \<and> node_at t (last (addrs t)) = Node (last (addrs t)) (last (in_order_helper t)) l Null p"
proof (induction t)
  case Null
  then show ?case by simp
next
  case (Node b d l r p)
  show ?case
  proof (cases "r = Null")
    case True
    then show ?thesis by simp
  next
    case False
    with Node obtain l' p' where
      f: "find_max r = Some (last (addrs r))" and
      n: "node_at r (last (addrs r)) = Node (last (addrs r)) (last (in_order_helper r)) l' Null p'"
      by auto
    from False have "last (addrs r) \<in> set (addrs r)" by simp
    with Node.prems have "last (addrs r) \<noteq> b" "last (addrs r) \<notin> set (addrs l)" by auto
    then have "node_at (Node b d l r p) (last (addrs r)) = node_at r (last (addrs r))"
      by (simp add: node_at_right)
    with f n False show ?thesis by simp
  qed
qed

lemma find_min_node_at:
  "distinct (addrs t) \<Longrightarrow> t \<noteq> Null \<Longrightarrow>
     \<exists>r p. find_min t = Some (hd (addrs t))
       \<and> node_at t (hd (addrs t)) = Node (hd (addrs t)) (hd (in_order_helper t)) Null r p"
proof (induction t)
  case Null
  then show ?case by simp
next
  case (Node b d l r p)
  show ?case
  proof (cases "l = Null")
    case True
    then show ?thesis by simp
  next
    case False
    with Node obtain r' p' where
      f: "find_min l = Some (hd (addrs l))" and
      n: "node_at l (hd (addrs l)) = Node (hd (addrs l)) (hd (in_order_helper l)) Null r' p'"
      by auto
    from False have m: "hd (addrs l) \<in> set (addrs l)" by simp
    with Node.prems have "hd (addrs l) \<noteq> b" by auto
    with m have "node_at (Node b d l r p) (hd (addrs l)) = node_at l (hd (addrs l))"
      by (simp add: node_at_left)
    with f n False show ?thesis by simp
  qed
qed

lemma wellformed_nonempty:
  assumes "wellformed s" "\<not> empty s"
  shows "root s \<noteq> Null"
proof
  assume "root s = Null"
  with assms(1) have "tree_size s = 0" by (simp add: wellformed_def)
  with assms(2) show False by (simp add: empty_def)
qed

lemma sorted_wrt_less_last_Max:
  fixes xs :: "'a::linorder list"
  shows "sorted_wrt (<) xs \<Longrightarrow> xs \<noteq> [] \<Longrightarrow> last xs = Max (set xs)"
proof (induction xs)
  case Nil
  then show ?case by simp
next
  case (Cons x xs)
  show ?case
  proof (cases "xs = []")
    case True
    then show ?thesis by simp
  next
    case False
    with Cons have l: "last xs = Max (set xs)" by simp
    from False have "Max (set xs) \<in> set xs" by simp
    with Cons.prems have "x < Max (set xs)" by auto
    with l False show ?thesis by (auto simp: max_def)
  qed
qed

lemma pre_decrement_end_max:
  assumes "wellformed s" "ordered (root s)" "\<not> empty s"
  shows "\<exists>it. pre_decrement s (end_it s) = Some (Inr it)
           \<and> deref s it = Inr (Max (set (in_order_traversal s)))"
proof -
  have nn: "root s \<noteq> Null" using assms(1,3) by (rule wellformed_nonempty)
  from assms(1) have d: "distinct (addrs (root s))" by (simp add: wellformed_def)
  from find_max_node_at [OF d nn] obtain l p where
    f: "find_max (root s) = Some (last (addrs (root s)))" and
    n: "node_at (root s) (last (addrs (root s)))
          = Node (last (addrs (root s))) (last (in_order_helper (root s))) l Null p"
    by blast
  have "last (in_order_helper (root s)) = Max (set (in_order_helper (root s)))"
    using assms(2) nn by (intro sorted_wrt_less_last_Max) (simp_all add: ordered_sorted)
  with f n assms(3) show ?thesis
    by (simp add: pre_decrement_def end_it_def make_iterator_def deref_def in_order_traversal_def)
qed

text \<open>
  Claim C8 (decrementing the end iterator of a non-empty tree moves it to the maximum
  element). The pre-decrement does so, as \<open>pre_decrement_end_max\<close> above shows. The
  post-decrement has no branch for the end iterator: it calls \<^verbatim>\<open>predecessor()\<close> at once,
  which reads \<^verbatim>\<open>ptr_->left\<close> through the null pointer. In every state, post-decrementing the
  end iterator is a null dereference.
\<close>

theorem post_decrement_end_faults:
  "post_decrement s (end_it s) = Some (Inl NullDereference)"
  by (simp add: post_decrement_def predecessor_def end_it_def make_iterator_def)

section \<open>Insertion\<close>

lemma update_at_left:
  assumes "a \<in> set (addrs l)" "distinct (addrs (Node b d l r p))"
  shows "update_at a f (Node b d l r p) = Node b d (update_at a f l) r p"
proof -
  from assms have "a \<noteq> b" "a \<notin> set (addrs r)" by auto
  then show ?thesis by (simp add: update_at_absent)
qed

lemma update_at_right:
  assumes "a \<in> set (addrs r)" "distinct (addrs (Node b d l r p))"
  shows "update_at a f (Node b d l r p) = Node b d l (update_at a f r) p"
proof -
  from assms have "a \<noteq> b" "a \<notin> set (addrs l)" by auto
  then show ?thesis by (simp add: update_at_absent)
qed

lemma emplace_loop_attach:
  assumes "distinct (addrs t)" "t \<noteq> Null" "find_node t k = None" "a \<notin> set (addrs t)"
  shows "\<exists>pa t'. emplace_loop t q k = Inr (Some pa) \<and> pa \<in> set (addrs t)
           \<and> update_at pa (attach pa a k) t = t'
           \<and> set (in_order_helper t') = insert k (set (in_order_helper t))
           \<and> set (addrs t') = insert a (set (addrs t))
           \<and> distinct (addrs t')
           \<and> length (addrs t') = Suc (length (addrs t))
           \<and> (ordered t \<longrightarrow> ordered t')
           \<and> (\<forall>q'. parents_ok q' t \<longrightarrow> parents_ok q' t')
           \<and> node_at t' a \<noteq> Null \<and> (\<exists>l r p. node_at t' a = Node a k l r p)"
  using assms
proof (induction t arbitrary: q)
  case Null
  then show ?case by simp
next
  case (Node b d l r p)
  from Node.prems(3) consider
      (LN) "k < d" "l = Null" | (LR) "k < d" "l \<noteq> Null" "find_node l k = None"
    | (RN) "d < k" "\<not> k < d" "r = Null" | (RR) "d < k" "\<not> k < d" "r \<noteq> Null" "find_node r k = None"
    by (auto split: if_splits)
  then show ?case
  proof cases
    case LN
    with Node.prems show ?thesis by (auto simp: list_all_iff)
  next
    case LR
    from Node.prems have dl: "distinct (addrs l)" and al: "a \<notin> set (addrs l)" by auto
    from Node.IH(1) [OF dl LR(2) LR(3) al, of "Some b"] obtain pa t' where
      IH: "emplace_loop l (Some b) k = Inr (Some pa)" "pa \<in> set (addrs l)"
        "update_at pa (attach pa a k) l = t'"
        "set (in_order_helper t') = insert k (set (in_order_helper l))"
        "set (addrs t') = insert a (set (addrs l))"
        "distinct (addrs t')"
        "length (addrs t') = Suc (length (addrs l))"
        "ordered l \<longrightarrow> ordered t'"
        "\<forall>q'. parents_ok q' l \<longrightarrow> parents_ok q' t'"
        "\<exists>l r p. node_at t' a = Node a k l r p"
      by blast
    have u: "update_at pa (attach pa a k) (Node b d l r p) = Node b d t' r p"
      using IH(2,3) Node.prems(1) by (simp only: update_at_left)
    have n: "node_at (Node b d t' r p) a = node_at t' a"
      using IH(5) Node.prems(4) by (simp add: node_at_left)
    show ?thesis
      using LR IH Node.prems u n by (auto simp: list_all_iff)
  next
    case RN
    with Node.prems show ?thesis by (auto simp: list_all_iff)
  next
    case RR
    from Node.prems have dr: "distinct (addrs r)" and ar: "a \<notin> set (addrs r)" by auto
    from Node.IH(2) [OF dr RR(3) RR(4) ar, of "Some b"] obtain pa t' where
      IH: "emplace_loop r (Some b) k = Inr (Some pa)" "pa \<in> set (addrs r)"
        "update_at pa (attach pa a k) r = t'"
        "set (in_order_helper t') = insert k (set (in_order_helper r))"
        "set (addrs t') = insert a (set (addrs r))"
        "distinct (addrs t')"
        "length (addrs t') = Suc (length (addrs r))"
        "ordered r \<longrightarrow> ordered t'"
        "\<forall>q'. parents_ok q' r \<longrightarrow> parents_ok q' t'"
        "\<exists>l r p. node_at t' a = Node a k l r p"
      by blast
    have u: "update_at pa (attach pa a k) (Node b d l r p) = Node b d l t' p"
      using IH(2,3) Node.prems(1) by (simp only: update_at_right)
    have n: "node_at (Node b d l t' p) a = node_at t' a"
      using IH(5) Node.prems(1,4) by (simp add: node_at_right)
    show ?thesis
      using RR IH Node.prems u n by (auto simp: list_all_iff)
  qed
qed


lemma find_node_data_in: "find_node t k = Some a \<Longrightarrow> k \<in> set (in_order_helper t)"
  by (induction t) (auto split: if_splits)

lemma wellformed_BinarySearchTree: "wellformed BinarySearchTree"
  by (simp add: wellformed_def BinarySearchTree_def)

lemma emplace_absent:
  assumes wf: "wellformed s" and nc: "\<not> contains s k"
  shows "\<exists>it s'. emplace k s = Inr ((it, True), s') \<and> wellformed s'
           \<and> (ordered (root s) \<longrightarrow> ordered (root s'))
           \<and> set (in_order_traversal s') = insert k (set (in_order_traversal s))
           \<and> tree_size s' = tree_size s + 1
           \<and> deref s' it = Inr k"
proof (cases "root s = Null")
  case True
  with wf show ?thesis
    by (simp add: emplace_def wellformed_def in_order_traversal_def deref_def make_iterator_def)
next
  case False
  let ?a = "next_addr s"
  from wf have d: "distinct (addrs (root s))" and fresh: "?a \<notin> set (addrs (root s))"
    by (auto simp: wellformed_def list_all_iff)
  from nc have fn: "find_node (root s) k = None" by (simp add: contains_def)
  from emplace_loop_attach [OF d False fn fresh, of None] obtain pa t' where
    L: "emplace_loop (root s) None k = Inr (Some pa)" "pa \<in> set (addrs (root s))"
       "update_at pa (attach pa ?a k) (root s) = t'"
       "set (in_order_helper t') = insert k (set (in_order_helper (root s)))"
       "set (addrs t') = insert ?a (set (addrs (root s)))"
       "distinct (addrs t')"
       "length (addrs t') = Suc (length (addrs (root s)))"
       "ordered (root s) \<longrightarrow> ordered t'"
       "\<forall>q'. parents_ok q' (root s) \<longrightarrow> parents_ok q' t'"
       "\<exists>l r p. node_at t' ?a = Node ?a k l r p"
    by blast
  from L(2) obtain d' l' r' p' where pn: "node_at (root s) pa = Node pa d' l' r' p'"
    using node_at_present by blast
  let ?s' = "s\<lparr>root := t', tree_size := tree_size s + 1, next_addr := ?a + 1\<rparr>"
  have e: "emplace k s = Inr ((make_iterator (Some ?a), True), ?s')"
    using False L(1,3) pn by (simp add: emplace_def)
  have w: "wellformed ?s'"
    using wf L(5,6,7,9) by (auto simp: wellformed_def list_all_iff)
  have dr: "deref ?s' (make_iterator (Some ?a)) = Inr k"
    using L(10) by (auto simp: deref_def make_iterator_def)
  show ?thesis
    using e w dr L(4,8) by (simp add: in_order_traversal_def)
qed

lemma emplace_correct:
  assumes wf: "wellformed s"
  shows "\<exists>it b s'. emplace k s = Inr ((it, b), s') \<and> wellformed s'
           \<and> (ordered (root s) \<longrightarrow> ordered (root s'))
           \<and> set (in_order_traversal s') = insert k (set (in_order_traversal s))"
proof (cases "contains s k")
  case True
  then obtain a where a: "find_node (root s) k = Some a" by (auto simp: contains_def)
  then have nn: "root s \<noteq> Null" by auto
  from a have "emplace k s = Inr ((make_iterator (Some a), False), s)"
    using nn by (simp add: emplace_def emplace_loop_find_node)
  moreover from a have "k \<in> set (in_order_traversal s)"
    by (simp add: in_order_traversal_def find_node_data_in)
  ultimately show ?thesis using wf by (auto simp: insert_absorb)
next
  case False
  from emplace_absent [OF wf False] show ?thesis by blast
qed

lemma insert_each_correct:
  "wellformed s \<Longrightarrow> ordered (root s) \<Longrightarrow>
     \<exists>s'. insert_each xs s = Inr s' \<and> wellformed s' \<and> ordered (root s')
       \<and> set (in_order_traversal s') = set xs \<union> set (in_order_traversal s)"
proof (induction xs arbitrary: s)
  case Nil
  then show ?case by simp
next
  case (Cons x xs)
  from emplace_correct [OF Cons.prems(1), of x] Cons.prems(2) obtain it b s1 where
    e: "emplace x s = Inr ((it, b), s1)" and w: "wellformed s1" and o: "ordered (root s1)"
    and st: "set (in_order_traversal s1) = insert x (set (in_order_traversal s))"
    by blast
  from Cons.IH [OF w o] obtain s' where
    "insert_each xs s1 = Inr s'" "wellformed s'" "ordered (root s')"
    "set (in_order_traversal s') = set xs \<union> set (in_order_traversal s1)"
    by blast
  with e st show ?case by (auto simp: insert_value_def)
qed

lemma strictly_sorted_is_sorted_list_of_set:
  fixes xs :: "'a::linorder list"
  assumes "sorted_wrt (<) xs"
  shows "xs = sorted_list_of_set (set xs)"
proof -
  from assms have "sorted xs" "distinct xs" by (simp_all add: strict_sorted_iff)
  then show ?thesis by (simp add: sorted_list_of_set.idem_if_sorted_distinct)
qed

lemma BinarySearchTree_ilist_correct:
  "\<exists>s. BinarySearchTree_ilist xs = Inr s \<and> wellformed s \<and> ordered (root s)
     \<and> in_order_traversal s = sorted_list_of_set (set xs)"
proof -
  have o: "ordered (root (BinarySearchTree :: 'a bstree))" by (simp add: BinarySearchTree_def)
  from insert_each_correct [OF wellformed_BinarySearchTree o, of xs] obtain s where
    s: "insert_each xs BinarySearchTree = Inr s" "wellformed s" "ordered (root s)"
       "set (in_order_traversal s) = set xs \<union> set (in_order_traversal (BinarySearchTree :: 'a bstree))"
    by blast
  from s(4) have st: "set (in_order_traversal s) = set xs"
    by (simp add: in_order_traversal_def BinarySearchTree_def)
  from s(3) have "sorted_wrt (<) (in_order_traversal s)"
    by (simp add: in_order_traversal_def ordered_sorted)
  from strictly_sorted_is_sorted_list_of_set [OF this] st
  have "in_order_traversal s = sorted_list_of_set (set xs)" by simp
  with s show ?thesis by (auto simp: BinarySearchTree_ilist_def)
qed

section \<open>The iterator walks the tree in order\<close>

lemma distinct_addrs_node_at: "distinct (addrs t) \<Longrightarrow> distinct (addrs (node_at t a))"
  by (induction t) auto

lemma parents_ok_node_at:
  "parents_ok q t \<Longrightarrow> node_at t a = Node a v l r p \<Longrightarrow>
     parents_ok (Some a) l \<and> parents_ok (Some a) r"
  by (induction t arbitrary: q) (auto split: if_splits)

lemma subtree_node_at:
  assumes "distinct (addrs rt)" "node_at rt b = Node b v l r p"
    "c \<in> set (addrs l) \<or> c \<in> set (addrs r)"
  shows "node_at rt c = node_at (Node b v l r p) c"
  using node_at_node_at [OF assms(1), of c b] assms(2,3) by auto

lemma subtree_left_child:
  assumes d: "distinct (addrs rt)" and n: "node_at rt b = Node b v l r p" and g: "get l = Some c"
  shows "node_at rt c = l"
proof -
  from g have cl: "c \<in> set (addrs l)" by (rule get_in_addrs)
  from distinct_addrs_node_at [OF d, of b] n have "distinct (addrs (Node b v l r p))" by simp
  with cl have "c \<noteq> b" by auto
  from node_at_left [OF cl this] node_at_self [OF g]
  have "node_at (Node b v l r p) c = l" by simp
  with subtree_node_at [OF d n, of c] cl show ?thesis by simp
qed

lemma subtree_right_child:
  assumes d: "distinct (addrs rt)" and n: "node_at rt b = Node b v l r p" and g: "get r = Some c"
  shows "node_at rt c = r"
proof -
  from g have cr: "c \<in> set (addrs r)" by (rule get_in_addrs)
  from distinct_addrs_node_at [OF d, of b] n have "distinct (addrs (Node b v l r p))" by simp
  with cr have "c \<notin> set (addrs l)" "c \<noteq> b" by auto
  from node_at_right [OF this] node_at_self [OF g]
  have "node_at (Node b v l r p) c = r" by simp
  with subtree_node_at [OF d n, of c] cr show ?thesis by simp
qed

lemma split_at_unique:
  "distinct (xs @ a # ys) \<Longrightarrow> xs @ a # ys = us @ a # vs \<Longrightarrow> xs = us \<and> ys = vs"
proof (induction xs arbitrary: us)
  case Nil
  then show ?case by (cases us) auto
next
  case outer: (Cons x xs)
  show ?case
  proof (cases us)
    case Nil
    with outer.prems show ?thesis by auto
  next
    case (Cons u us')
    with outer.prems have "x = u" "xs @ a # ys = us' @ a # vs" by simp_all
    moreover from outer.prems have "distinct (xs @ a # ys)" by simp
    ultimately show ?thesis using outer.IH [of us'] Cons by simp
  qed
qed

lemma climb_right_from_left_child:
  assumes "node_at rt c = Node c v l r p" "get r \<noteq> Some lb"
  shows "climb_while_right rt lb (Some c) = Some (Inr (Some c))"
  using assms by (subst climb_while_right.simps) simp

lemma climb_right_from_right_child:
  assumes "node_at rt c = Node c v l r p" "get r = Some rb"
  shows "climb_while_right rt rb (Some c) = climb_while_right rt c p"
  using assms by (subst climb_while_right.simps) simp

lemma climb_right_root: "climb_while_right rt c None = Some (Inr None)"
  by (subst climb_while_right.simps) simp

lemma successor_in_subtree:
  assumes d: "distinct (addrs rt)"
  shows "get t = Some b \<Longrightarrow> node_at rt b = t \<Longrightarrow> parents_ok q t \<Longrightarrow>
         climb_while_right rt b q = Some (Inr e) \<Longrightarrow> addrs t = xs @ a # ys \<Longrightarrow>
         successor rt (Some a) = Some (Inr (case ys of [] \<Rightarrow> e | y # zs \<Rightarrow> Some y))"
proof (induction t arbitrary: b q e xs ys)
  case Null
  then show ?case by simp
next
  case (Node c v l r p)
  from Node.prems(1) have bc: "b = c" by simp
  from Node.prems(3) have pq: "p = q" and pl: "parents_ok (Some c) l" and pr: "parents_ok (Some c) r"
    by simp_all
  from Node.prems(2) bc have n: "node_at rt c = Node c v l r p" by simp
  from distinct_addrs_node_at [OF d, of c] n have dn: "distinct (addrs l @ c # addrs r)" by simp
  from Node.prems(5) have sp: "addrs l @ c # addrs r = xs @ a # ys" by simp
  from Node.prems(4) bc pq have cl: "climb_while_right rt c p = Some (Inr e)" by simp
  have "a \<in> set (addrs l @ c # addrs r)" using sp by simp
  then consider (L) "a \<in> set (addrs l)" | (M) "a = c" | (R) "a \<in> set (addrs r)" by auto
  then show ?case
  proof cases
    case M
    from sp M have sp': "addrs l @ c # addrs r = xs @ c # ys" by simp
    from split_at_unique [OF dn sp'] have ys: "ys = addrs r" by simp
    show ?thesis
    proof (cases "r = Null")
      case True
      with n M cl ys show ?thesis by (simp add: successor_def)
    next
      case False
      from dn have "distinct (addrs r)" by simp
      from find_min_node_at [OF this False] have "find_min r = Some (hd (addrs r))" by blast
      moreover from False have "addrs r \<noteq> []" by simp
      ultimately show ?thesis using n M ys False
        by (cases "addrs r") (auto simp: successor_def)
    qed
  next
    case L
    then obtain us vs where l: "addrs l = us @ a # vs" by (auto dest: split_list)
    with sp have e1: "us @ a # (vs @ c # addrs r) = xs @ a # ys" by simp
    from dn l have d1: "distinct (us @ a # (vs @ c # addrs r))" by simp
    from split_at_unique [OF d1 e1] have ys: "ys = vs @ c # addrs r" by simp
    from L obtain lb where gl: "get l = Some lb" by (cases l) auto
    have nl: "node_at rt lb = l" using d n gl by (rule subtree_left_child)
    have "get r \<noteq> Some lb"
    proof
      assume "get r = Some lb"
      then have "lb \<in> set (addrs r)" by (rule get_in_addrs)
      moreover from gl have "lb \<in> set (addrs l)" by (rule get_in_addrs)
      ultimately show False using dn by auto
    qed
    with n have "climb_while_right rt lb (Some c) = Some (Inr (Some c))"
      by (rule climb_right_from_left_child)
    from Node.IH(1) [OF gl nl pl this l]
    show ?thesis using ys by (cases vs) auto
  next
    case R
    then obtain us vs where r: "addrs r = us @ a # vs" by (auto dest: split_list)
    with sp have e1: "(addrs l @ c # us) @ a # vs = xs @ a # ys" by simp
    from dn r have d1: "distinct ((addrs l @ c # us) @ a # vs)" by simp
    from split_at_unique [OF d1 e1] have ys: "ys = vs" by simp
    from R obtain rb where gr: "get r = Some rb" by (cases r) auto
    have nr: "node_at rt rb = r" using d n gr by (rule subtree_right_child)
    from climb_right_from_right_child [OF n gr] cl
    have "climb_while_right rt rb (Some c) = Some (Inr e)" by simp
    from Node.IH(2) [OF gr nr pr this r]
    show ?thesis using ys by simp
  qed
qed

lemma successor_correct:
  assumes "distinct (addrs rt)" "parents_ok None rt" "addrs rt = xs @ a # ys"
  shows "successor rt (Some a) = Some (Inr (case ys of [] \<Rightarrow> None | y # zs \<Rightarrow> Some y))"
proof -
  from assms(3) obtain b where g: "get rt = Some b" by (cases rt) auto
  then have "node_at rt b = rt" by (rule node_at_self)
  from successor_in_subtree [OF assms(1) g this assms(2) climb_right_root assms(3)]
  show ?thesis .
qed

lemma node_at_nth:
  "distinct (addrs t) \<Longrightarrow> i < length (addrs t) \<Longrightarrow>
     \<exists>l r p. node_at t (addrs t ! i) = Node (addrs t ! i) (in_order_helper t ! i) l r p"
proof (induction t arbitrary: i)
  case Null
  then show ?case by simp
next
  case (Node b d l r p)
  have len: "length (in_order_helper l) = length (addrs l)" by (rule in_order_length)
  consider (L) "i < length (addrs l)" | (M) "i = length (addrs l)"
    | (R) "i > length (addrs l)" by linarith
  then show ?case
  proof cases
    case L
    then have m: "addrs l ! i \<in> set (addrs l)" by simp
    with Node.prems have "addrs l ! i \<noteq> b" by auto
    with m have "node_at (Node b d l r p) (addrs l ! i) = node_at l (addrs l ! i)"
      by (simp add: node_at_left)
    with Node.IH(1) [of i] Node.prems L len show ?thesis by (auto simp: nth_append)
  next
    case M
    with len show ?thesis by (simp add: nth_append)
  next
    case R
    let ?j = "i - length (addrs l) - 1"
    from R Node.prems have j: "?j < length (addrs r)" by simp
    then have m: "addrs r ! ?j \<in> set (addrs r)" by simp
    with Node.prems have "addrs r ! ?j \<noteq> b" "addrs r ! ?j \<notin> set (addrs l)" by auto
    then have "node_at (Node b d l r p) (addrs r ! ?j) = node_at r (addrs r ! ?j)"
      by (simp add: node_at_right)
    moreover from R have "(addrs l @ b # addrs r) ! i = addrs r ! ?j"
      by (simp add: nth_append nth_Cons')
    moreover from R len have "(in_order_helper l @ d # in_order_helper r) ! i = in_order_helper r ! ?j"
      by (simp add: nth_append nth_Cons')
    ultimately show ?thesis using Node.IH(2) [of ?j] Node.prems j by auto
  qed
qed

lemma range_loop_from:
  assumes d: "distinct (addrs (root s))" and po: "parents_ok None (root s)"
  shows "i \<le> length (addrs (root s)) \<Longrightarrow>
     range_loop s (make_iterator (if i < length (addrs (root s)) then Some (addrs (root s) ! i) else None)) acc
       = Some (Inr (acc @ drop i (in_order_helper (root s))))"
proof (induction "length (addrs (root s)) - i" arbitrary: i acc)
  case 0
  then have "i = length (addrs (root s))" by simp
  then show ?case
    by (subst range_loop.simps)
       (simp add: iter_neq_def end_it_def make_iterator_def in_order_length)
next
  case (Suc k)
  let ?as = "addrs (root s)"
  from Suc.hyps(2) have i: "i < length ?as" by simp
  from node_at_nth [OF d i] obtain l r p where
    n: "node_at (root s) (?as ! i) = Node (?as ! i) (in_order_helper (root s) ! i) l r p"
    by blast
  have sp: "?as = take i ?as @ (?as ! i) # drop (Suc i) ?as"
    using i by (simp add: id_take_nth_drop)
  have next_: "(case drop (Suc i) ?as of [] \<Rightarrow> None | y # zs \<Rightarrow> Some y)
          = (if Suc i < length ?as then Some (?as ! Suc i) else None)"
  proof (cases "Suc i < length ?as")
    case True
    then have "drop (Suc i) ?as = ?as ! Suc i # drop (Suc (Suc i)) ?as"
      by (simp add: Cons_nth_drop_Suc)
    with True show ?thesis by simp
  next
    case False
    then show ?thesis by simp
  qed
  from successor_correct [OF d po sp] next_
  have su: "successor (root s) (Some (?as ! i))
          = Some (Inr (if Suc i < length ?as then Some (?as ! Suc i) else None))" by simp
  have step: "pre_increment s (make_iterator (Some (?as ! i)))
          = Some (Inr (make_iterator (if Suc i < length ?as then Some (?as ! Suc i) else None)))"
    using su by (simp add: pre_increment_def make_iterator_def)
  have dr: "deref s (make_iterator (Some (?as ! i))) = Inr (in_order_helper (root s) ! i)"
    using n by (simp add: deref_def make_iterator_def)
  from Suc.hyps(2) have k: "k = length ?as - Suc i" by simp
  from i have le: "Suc i \<le> length ?as" by simp
  have "range_loop s (make_iterator (Some (?as ! i))) acc
      = range_loop s (make_iterator (if Suc i < length ?as then Some (?as ! Suc i) else None))
          (acc @ [in_order_helper (root s) ! i])"
    by (subst range_loop.simps)
       (simp add: iter_neq_def end_it_def step dr, simp add: make_iterator_def)
  also have "\<dots> = Some (Inr ((acc @ [in_order_helper (root s) ! i]) @ drop (Suc i) (in_order_helper (root s))))"
    using Suc.hyps(1) [OF k le] .
  also have "(acc @ [in_order_helper (root s) ! i]) @ drop (Suc i) (in_order_helper (root s))
      = acc @ drop i (in_order_helper (root s))"
    using i by (simp add: Cons_nth_drop_Suc in_order_length)
  finally show ?case using i by simp
qed

lemma range_for_correct:
  assumes "wellformed s"
  shows "range_for s = Some (Inr (in_order_traversal s))"
proof -
  from assms have d: "distinct (addrs (root s))" and po: "parents_ok None (root s)"
    by (simp_all add: wellformed_def)
  have b: "begin_it s = make_iterator (if 0 < length (addrs (root s)) then Some (addrs (root s) ! 0) else None)"
  proof (cases "root s = Null")
    case True
    then show ?thesis by (simp add: begin_it_def)
  next
    case False
    from find_min_node_at [OF d False] have "find_min (root s) = Some (hd (addrs (root s)))" by blast
    with False show ?thesis by (simp add: begin_it_def hd_conv_nth)
  qed
  from range_loop_from [OF d po, of 0 "[]"] b show ?thesis
    by (simp add: range_for_def in_order_traversal_def)
qed

section \<open>Insertion sequences are visited in ascending order\<close>

text \<open>
  Claim C1. After any sequence of insertions, the in-order traversal and the iteration from
  \<^verbatim>\<open>begin()\<close> to \<^verbatim>\<open>end()\<close> both visit the distinct inserted values once each, in ascending
  order. First part: the initializer-list constructor, which calls \<^verbatim>\<open>insert\<close> for each value
  of the list, yields a tree whose in-order traversal and whose range iteration are the
  sorted list of the set of the values. Second part: one more \<^verbatim>\<open>emplace\<close> or \<^verbatim>\<open>insert\<close> in any
  well-formed, ordered state (every state reached so far is one) yields such a state again,
  whose in-order traversal and range iteration are the sorted list of the old values and the
  new one.
\<close>

theorem insertions_in_order_sorted:
  "(\<exists>s. BinarySearchTree_ilist xs = Inr s \<and> wellformed s \<and> ordered (root s)
        \<and> in_order_traversal s = sorted_list_of_set (set xs)
        \<and> range_for s = Some (Inr (sorted_list_of_set (set xs))))
   \<and> (\<forall>s v. wellformed s \<and> ordered (root s) \<longrightarrow>
          (\<exists>it b s'. emplace v s = Inr ((it, b), s') \<and> insert_value v s = Inr (it, s')
             \<and> wellformed s' \<and> ordered (root s')
             \<and> in_order_traversal s' = sorted_list_of_set (insert v (set (in_order_traversal s)))
             \<and> range_for s' = Some (Inr (in_order_traversal s'))))"
proof (intro conjI allI impI)
  from BinarySearchTree_ilist_correct [of xs] obtain s where
    s: "BinarySearchTree_ilist xs = Inr s" "wellformed s" "ordered (root s)"
       "in_order_traversal s = sorted_list_of_set (set xs)"
    by blast
  from range_for_correct [OF s(2)] s
  show "\<exists>s. BinarySearchTree_ilist xs = Inr s \<and> wellformed s \<and> ordered (root s)
        \<and> in_order_traversal s = sorted_list_of_set (set xs)
        \<and> range_for s = Some (Inr (sorted_list_of_set (set xs)))"
    by auto
next
  fix s v
  assume a: "wellformed s \<and> ordered (root s)"
  then have wf: "wellformed s" and o: "ordered (root s)" by simp_all
  from emplace_correct [OF wf, of v] o obtain it b s' where
    e: "emplace v s = Inr ((it, b), s')" and w: "wellformed s'" and o': "ordered (root s')"
    and st: "set (in_order_traversal s') = insert v (set (in_order_traversal s))"
    by blast
  from o' have "sorted_wrt (<) (in_order_traversal s')"
    by (simp add: in_order_traversal_def ordered_sorted)
  from strictly_sorted_is_sorted_list_of_set [OF this] st
  have io: "in_order_traversal s' = sorted_list_of_set (insert v (set (in_order_traversal s)))"
    by simp
  from e have i: "insert_value v s = Inr (it, s')" by (simp add: insert_value_def)
  from e i w o' io range_for_correct [OF w]
  show "\<exists>it b s'. emplace v s = Inr ((it, b), s') \<and> insert_value v s = Inr (it, s')
             \<and> wellformed s' \<and> ordered (root s')
             \<and> in_order_traversal s' = sorted_list_of_set (insert v (set (in_order_traversal s)))
             \<and> range_for s' = Some (Inr (in_order_traversal s'))"
    by blast
qed

lemma wellformed_tree_20_10_30: "wellformed tree_20_10_30"
  by (simp add: wellformed_def tree_20_10_30_def)

lemma ordered_tree_20_10_30: "ordered (root tree_20_10_30)"
  by (simp add: tree_20_10_30_def)

theorem insertions_in_order_sorted_witness:
  "BinarySearchTree_ilist [10, 5, 15, 3, 7, 12, 18] = Inr tree_10_5_15_3_7_12_18
   \<and> in_order_traversal tree_10_5_15_3_7_12_18 = [3, 5, 7, 10, 12, 15, 18]
   \<and> range_for tree_10_5_15_3_7_12_18 = Some (Inr [3, 5, 7, 10, 12, 15, 18])
   \<and> wellformed tree_20_10_30 \<and> ordered (root tree_20_10_30)
   \<and> (\<exists>it b s'. emplace 25 tree_20_10_30 = Inr ((it, b), s')
         \<and> in_order_traversal s' = [10, 20, 25, 30]
         \<and> range_for s' = Some (Inr [10, 20, 25, 30]))"
proof -
  have srt: "sorted_list_of_set (set [10, 5, 15, 3, 7, 12, 18 :: int]) = [3, 5, 7, 10, 12, 15, 18]"
    by (simp add: sorted_list_of_set_sort_remdups)
  have st2: "insert 25 (set (in_order_traversal tree_20_10_30)) = set [25, 10, 20, 30]"
    by (simp add: in_order_traversal_def tree_20_10_30_def)
  have "sorted_list_of_set (set [25, 10, 20, 30 :: int]) = [10, 20, 25, 30]"
    by (simp add: sorted_list_of_set_sort_remdups)
  with st2 have srt2:
    "sorted_list_of_set (insert 25 (set (in_order_traversal tree_20_10_30))) = [10, 20, 25, 30]"
    by simp
  note main = insertions_in_order_sorted [of "[10, 5, 15, 3, 7, 12, 18 :: int]"]
  from main have 1: "\<exists>s. BinarySearchTree_ilist [10, 5, 15, 3, 7, 12, 18 :: int] = Inr s
        \<and> in_order_traversal s = [3, 5, 7, 10, 12, 15, 18]
        \<and> range_for s = Some (Inr [3, 5, 7, 10, 12, 15, 18])"
    unfolding srt by blast
  from main wellformed_tree_20_10_30 ordered_tree_20_10_30
  have 2: "\<exists>it b s'. emplace 25 tree_20_10_30 = Inr ((it, b), s')
         \<and> in_order_traversal s' = [10, 20, 25, 30]
         \<and> range_for s' = Some (Inr [10, 20, 25, 30])"
    unfolding srt2 [symmetric] by metis
  from 1 2 show ?thesis
    using wellformed_tree_20_10_30 ordered_tree_20_10_30
    by (auto simp: tree_10_5_15_3_7_12_18_built)
qed

section \<open>Erasing a key that is present\<close>

lemma update_at_twice:
  "update_at a f (update_at a (set_data v) t) = update_at a (\<lambda>n. f (set_data v n)) t"
  by (induction t) auto

lemma in_order_set_parent [simp]: "in_order_helper (set_parent q t) = in_order_helper t"
  by (cases t) auto

lemma addrs_set_parent [simp]: "addrs (set_parent q t) = addrs t"
  by (cases t) auto

lemma parents_ok_set_parent: "parents_ok q' t \<Longrightarrow> parents_ok q (set_parent q t)"
  by (cases t) auto

lemma update_at_lists:
  "distinct (addrs t) \<Longrightarrow> a \<in> set (addrs t) \<Longrightarrow>
     \<exists>xs ys as bs.
        in_order_helper t = xs @ in_order_helper (node_at t a) @ ys
      \<and> addrs t = as @ addrs (node_at t a) @ bs
      \<and> in_order_helper (update_at a f t) = xs @ in_order_helper (f (node_at t a)) @ ys
      \<and> addrs (update_at a f t) = as @ addrs (f (node_at t a)) @ bs"
proof (induction t)
  case Null
  then show ?case by simp
next
  case (Node b d l r p)
  from Node.prems(2) consider (M) "a = b" | (L) "a \<noteq> b" "a \<in> set (addrs l)"
    | (R) "a \<noteq> b" "a \<notin> set (addrs l)" "a \<in> set (addrs r)" by auto
  then show ?case
  proof cases
    case M
    have n: "node_at (Node b d l r p) a = Node b d l r p" using M by simp
    have u: "update_at a f (Node b d l r p) = f (Node b d l r p)" using M by simp
    show ?thesis unfolding n u by (intro exI [of _ "[]"]) simp
  next
    case L
    from Node.prems have dl: "distinct (addrs l)" by simp
    from Node.IH(1) [OF dl L(2)] obtain xs ys as bs where
      IH: "in_order_helper l = xs @ in_order_helper (node_at l a) @ ys"
          "addrs l = as @ addrs (node_at l a) @ bs"
          "in_order_helper (update_at a f l) = xs @ in_order_helper (f (node_at l a)) @ ys"
          "addrs (update_at a f l) = as @ addrs (f (node_at l a)) @ bs"
      by blast
    have n: "node_at (Node b d l r p) a = node_at l a" by (rule node_at_left [OF L(2) L(1)])
    have u: "update_at a f (Node b d l r p) = Node b d (update_at a f l) r p"
      using L(2) Node.prems(1) by (rule update_at_left)
    have "in_order_helper (Node b d l r p)
            = xs @ in_order_helper (node_at l a) @ (ys @ d # in_order_helper r)
       \<and> addrs (Node b d l r p) = as @ addrs (node_at l a) @ (bs @ b # addrs r)
       \<and> in_order_helper (Node b d (update_at a f l) r p)
            = xs @ in_order_helper (f (node_at l a)) @ (ys @ d # in_order_helper r)
       \<and> addrs (Node b d (update_at a f l) r p)
            = as @ addrs (f (node_at l a)) @ (bs @ b # addrs r)"
      using IH by simp
    then show ?thesis unfolding n u by blast
  next
    case R
    from Node.prems have dr: "distinct (addrs r)" by simp
    from Node.IH(2) [OF dr R(3)] obtain xs ys as bs where
      IH: "in_order_helper r = xs @ in_order_helper (node_at r a) @ ys"
          "addrs r = as @ addrs (node_at r a) @ bs"
          "in_order_helper (update_at a f r) = xs @ in_order_helper (f (node_at r a)) @ ys"
          "addrs (update_at a f r) = as @ addrs (f (node_at r a)) @ bs"
      by blast
    have n: "node_at (Node b d l r p) a = node_at r a" by (rule node_at_right [OF R(2) R(1)])
    have u: "update_at a f (Node b d l r p) = Node b d l (update_at a f r) p"
      using R(3) Node.prems(1) by (rule update_at_right)
    have "in_order_helper (Node b d l r p)
            = (in_order_helper l @ d # xs) @ in_order_helper (node_at r a) @ ys
       \<and> addrs (Node b d l r p) = (addrs l @ b # as) @ addrs (node_at r a) @ bs
       \<and> in_order_helper (Node b d l (update_at a f r) p)
            = (in_order_helper l @ d # xs) @ in_order_helper (f (node_at r a)) @ ys
       \<and> addrs (Node b d l (update_at a f r) p)
            = (addrs l @ b # as) @ addrs (f (node_at r a)) @ bs"
      using IH by simp
    then show ?thesis unfolding n u by blast
  qed
qed

lemma update_at_parents_ok:
  "distinct (addrs t) \<Longrightarrow> parents_ok q t \<Longrightarrow> a \<in> set (addrs t) \<Longrightarrow>
     (\<And>q'. parents_ok q' (node_at t a) \<Longrightarrow> parents_ok q' (f (node_at t a))) \<Longrightarrow>
     parents_ok q (update_at a f t)"
proof (induction t arbitrary: q)
  case Null
  then show ?case by simp
next
  case (Node b d l r p)
  from Node.prems(3) consider (M) "a = b" | (L) "a \<noteq> b" "a \<in> set (addrs l)"
    | (R) "a \<noteq> b" "a \<notin> set (addrs l)" "a \<in> set (addrs r)" by auto
  then show ?case
  proof cases
    case M
    with Node.prems(2) Node.prems(4) [of q] show ?thesis by simp
  next
    case L
    have n: "node_at (Node b d l r p) a = node_at l a" by (rule node_at_left [OF L(2) L(1)])
    have u: "update_at a f (Node b d l r p) = Node b d (update_at a f l) r p"
      using L(2) Node.prems(1) by (rule update_at_left)
    from Node.prems(1,2) have "distinct (addrs l)" "parents_ok (Some b) l" by simp_all
    from Node.IH(1) [OF this L(2)] Node.prems(4) have "parents_ok (Some b) (update_at a f l)"
      unfolding n by blast
    with Node.prems(2) show ?thesis unfolding u by simp
  next
    case R
    have n: "node_at (Node b d l r p) a = node_at r a" by (rule node_at_right [OF R(2) R(1)])
    have u: "update_at a f (Node b d l r p) = Node b d l (update_at a f r) p"
      using R(3) Node.prems(1) by (rule update_at_right)
    from Node.prems(1,2) have "distinct (addrs r)" "parents_ok (Some b) r" by simp_all
    from Node.IH(2) [OF this R(3)] Node.prems(4) have "parents_ok (Some b) (update_at a f r)"
      unfolding n by blast
    with Node.prems(2) show ?thesis unfolding u by simp
  qed
qed

lemma erase_node_recursive_min:
  "ordered r \<Longrightarrow> r \<noteq> Null \<Longrightarrow>
     \<exists>r'. erase_node_recursive r (hd (in_order_helper r)) n = (r', n - 1)
       \<and> in_order_helper r' = tl (in_order_helper r)
       \<and> addrs r' = tl (addrs r)
       \<and> (\<forall>q. parents_ok q r \<longrightarrow> parents_ok q r')"
proof (induction r)
  case Null
  then show ?case by simp
next
  case (Node a d l r p)
  show ?case
  proof (cases "l = Null")
    case True
    then show ?thesis by (auto simp: parents_ok_set_parent)
  next
    case False
    from Node.prems have ol: "ordered l" by simp
    from Node.IH(1) [OF ol False] obtain l' where
      IH: "erase_node_recursive l (hd (in_order_helper l)) n = (l', n - 1)"
          "in_order_helper l' = tl (in_order_helper l)"
          "addrs l' = tl (addrs l)"
          "\<forall>q. parents_ok q l \<longrightarrow> parents_ok q l'"
      by blast
    from False have ne: "in_order_helper l \<noteq> []" "addrs l \<noteq> []" by simp_all
    then have "hd (in_order_helper l) \<in> set (in_order_helper l)" by simp
    with Node.prems have lt: "hd (in_order_helper l) < d" by (simp add: list_all_iff)
    from ne have h: "hd (in_order_helper (Node a d l r p)) = hd (in_order_helper l)" by simp
    show ?thesis unfolding h using lt IH ne by simp
  qed
qed

lemma parent_link_inner:
  "distinct (addrs t) \<Longrightarrow> parents_ok q t \<Longrightarrow> a \<in> set (addrs t) \<Longrightarrow> get t \<noteq> Some a \<Longrightarrow>
     \<exists>d' l' r' pa pd pl pr pp.
        node_at t a = Node a d' l' r' (Some pa) \<and> node_at t pa = Node pa pd pl pr pp
      \<and> (if get pl = Some a then update_at pa (set_left v) t else update_at pa (set_right v) t)
          = update_at a (\<lambda>n. v) t"
proof (induction t arbitrary: q)
  case Null
  then show ?case by simp
next
  case (Node b d l r p)
  from Node.prems(4) have ab: "a \<noteq> b" by simp
  from Node.prems(1) have dl: "distinct (addrs l)" and dr: "distinct (addrs r)"
    and bl: "b \<notin> set (addrs l)" and br: "b \<notin> set (addrs r)" by simp_all
  from Node.prems(2) have pl: "parents_ok (Some b) l" and pr: "parents_ok (Some b) r" by simp_all
  have self: "node_at (Node b d l r p) b = Node b d l r p" by simp
  from Node.prems(3) ab consider (L) "a \<in> set (addrs l)"
    | (R) "a \<notin> set (addrs l)" "a \<in> set (addrs r)" by auto
  then show ?case
  proof cases
    case L
    have n: "node_at (Node b d l r p) a = node_at l a" by (rule node_at_left [OF L ab])
    have u: "update_at a (\<lambda>n. v) (Node b d l r p) = Node b d (update_at a (\<lambda>n. v) l) r p"
      using L Node.prems(1) by (rule update_at_left)
    show ?thesis
    proof (cases "get l = Some a")
      case True
      then obtain ld ll lr lp where l: "l = Node a ld ll lr lp" by (cases l) auto
      with pl have lp: "lp = Some b" by simp
      have 1: "node_at (Node b d l r p) a = Node a ld ll lr (Some b)"
        unfolding n using l lp by simp
      have 2: "update_at b (set_left v) (Node b d l r p) = update_at a (\<lambda>n. v) (Node b d l r p)"
        unfolding u using l by simp
      from 1 self 2 True show ?thesis by (intro exI conjI) (assumption, assumption, simp)
    next
      case False
      from Node.IH(1) [OF dl pl L False] obtain d' l' r' pa pd pl' pr' pp where
        IH: "node_at l a = Node a d' l' r' (Some pa)" "node_at l pa = Node pa pd pl' pr' pp"
            "(if get pl' = Some a then update_at pa (set_left v) l else update_at pa (set_right v) l)
               = update_at a (\<lambda>n. v) l"
        by blast
      from node_at_addr [OF IH(2)] have pal: "pa \<in> set (addrs l)" by simp
      with bl have pab: "pa \<noteq> b" by auto
      have 1: "node_at (Node b d l r p) a = Node a d' l' r' (Some pa)" unfolding n by (rule IH(1))
      have 2: "node_at (Node b d l r p) pa = Node pa pd pl' pr' pp"
        using node_at_left [OF pal pab] IH(2) by simp
      have 3: "(if get pl' = Some a then update_at pa (set_left v) (Node b d l r p)
                 else update_at pa (set_right v) (Node b d l r p))
               = update_at a (\<lambda>n. v) (Node b d l r p)"
        unfolding u update_at_left [OF pal Node.prems(1)] using IH(3) by (auto split: if_splits)
      from 1 2 3 show ?thesis by blast
    qed
  next
    case R
    have n: "node_at (Node b d l r p) a = node_at r a" by (rule node_at_right [OF R(1) ab])
    have u: "update_at a (\<lambda>n. v) (Node b d l r p) = Node b d l (update_at a (\<lambda>n. v) r) p"
      using R(2) Node.prems(1) by (rule update_at_right)
    show ?thesis
    proof (cases "get r = Some a")
      case True
      then obtain rd rl rr rp where r: "r = Node a rd rl rr rp" by (cases r) auto
      with pr have rp: "rp = Some b" by simp
      have gl: "get l \<noteq> Some a" using R(1) get_in_addrs by blast
      have 1: "node_at (Node b d l r p) a = Node a rd rl rr (Some b)"
        unfolding n using r rp by simp
      have 2: "update_at b (set_right v) (Node b d l r p) = update_at a (\<lambda>n. v) (Node b d l r p)"
        unfolding u using r by simp
      from 1 self 2 gl show ?thesis by (intro exI conjI) (assumption, assumption, simp)
    next
      case False
      from Node.IH(2) [OF dr pr R(2) False] obtain d' l' r' pa pd pl' pr' pp where
        IH: "node_at r a = Node a d' l' r' (Some pa)" "node_at r pa = Node pa pd pl' pr' pp"
            "(if get pl' = Some a then update_at pa (set_left v) r else update_at pa (set_right v) r)
               = update_at a (\<lambda>n. v) r"
        by blast
      from node_at_addr [OF IH(2)] have par: "pa \<in> set (addrs r)" by simp
      with br Node.prems(1) have pab: "pa \<noteq> b" and panl: "pa \<notin> set (addrs l)" by auto
      have 1: "node_at (Node b d l r p) a = Node a d' l' r' (Some pa)" unfolding n by (rule IH(1))
      have 2: "node_at (Node b d l r p) pa = Node pa pd pl' pr' pp"
        using node_at_right [OF panl pab] IH(2) by simp
      have 3: "(if get pl' = Some a then update_at pa (set_left v) (Node b d l r p)
                 else update_at pa (set_right v) (Node b d l r p))
               = update_at a (\<lambda>n. v) (Node b d l r p)"
        unfolding u update_at_right [OF par Node.prems(1)] using IH(3) by (auto split: if_splits)
      from 1 2 3 show ?thesis by blast
    qed
  qed
qed

lemma parent_link_write:
  assumes d: "distinct (addrs t)" and po: "parents_ok None t" and a: "a \<in> set (addrs t)"
  shows "\<exists>k. get_parent_link t a = Inr k \<and> write_link k v t = update_at a (\<lambda>n. v) t"
proof (cases "get t = Some a")
  case True
  then obtain td tl tr tp where t: "t = Node a td tl tr tp" by (cases t) auto
  with po have "tp = None" by simp
  with t show ?thesis by (simp add: get_parent_link_def)
next
  case False
  from parent_link_inner [OF d po a False, of v] obtain d' l' r' pa pd pl pr pp where
    n: "node_at t a = Node a d' l' r' (Some pa)" "node_at t pa = Node pa pd pl pr pp"
       "(if get pl = Some a then update_at pa (set_left v) t else update_at pa (set_right v) t)
          = update_at a (\<lambda>n. v) t"
    by blast
  show ?thesis
  proof (cases "get pl = Some a")
    case True
    with n show ?thesis by (simp add: get_parent_link_def)
  next
    case False
    with n show ?thesis by (simp add: get_parent_link_def)
  qed
qed

lemma remove1_middle: "k \<notin> set us \<Longrightarrow> remove1 k (us @ k # vs) = us @ vs"
  by (induction us) auto

lemma sorted_wrt_drop_middle:
  fixes k :: "'a::linorder"
  shows "sorted_wrt (<) (us @ k # vs) \<Longrightarrow> sorted_wrt (<) (us @ vs) \<and> k \<notin> set us"
  by (auto simp: sorted_wrt_append)

lemma word_of_nat_pred:
  "0 < n \<Longrightarrow> (of_nat n :: 64 word) - 1 = of_nat (n - 1)"
  by (cases n) simp_all

lemma replace_erased_node:
  assumes wf: "wellformed s" and o: "ordered (root s)"
    and n: "node_at (root s) a = Node a k l r p"
    and io: "in_order_helper (f (Node a k l r p)) = in_order_helper l @ in_order_helper r"
    and ad: "distinct (addrs (f (Node a k l r p)))"
    and sub: "set (addrs (f (Node a k l r p))) \<subseteq> set (addrs (Node a k l r p))"
    and len: "Suc (length (addrs (f (Node a k l r p)))) = length (addrs (Node a k l r p))"
    and par: "\<And>q'. parents_ok q' (Node a k l r p) \<Longrightarrow> parents_ok q' (f (Node a k l r p))"
  shows "wellformed (s\<lparr>root := update_at a f (root s), tree_size := tree_size s - 1\<rparr>)
       \<and> ordered (update_at a f (root s))
       \<and> in_order_helper (update_at a f (root s)) = remove1 k (in_order_helper (root s))"
proof -
  let ?t = "root s" and ?v = "f (Node a k l r p)"
  from wf have d: "distinct (addrs ?t)" and po: "parents_ok None ?t"
    and bound: "\<forall>x \<in> set (addrs ?t). x < next_addr s"
    and sz: "tree_size s = of_nat (length (addrs ?t))"
    by (simp_all add: wellformed_def list_all_iff)
  from node_at_addr [OF n] have a: "a \<in> set (addrs ?t)" by simp
  from update_at_lists [OF d a, of f] obtain xs ys as bs where
    L: "in_order_helper ?t = xs @ in_order_helper (node_at ?t a) @ ys"
       "addrs ?t = as @ addrs (node_at ?t a) @ bs"
       "in_order_helper (update_at a f ?t) = xs @ in_order_helper (f (node_at ?t a)) @ ys"
       "addrs (update_at a f ?t) = as @ addrs (f (node_at ?t a)) @ bs"
    by blast
  from L(1) n have i1: "in_order_helper ?t = (xs @ in_order_helper l) @ k # (in_order_helper r @ ys)"
    by simp
  from L(3) n io have i2: "in_order_helper (update_at a f ?t) = (xs @ in_order_helper l) @ (in_order_helper r @ ys)"
    by simp
  from o have srt: "sorted_wrt (<) (in_order_helper ?t)" by (simp add: ordered_sorted)
  with i1 have "sorted_wrt (<) ((xs @ in_order_helper l) @ k # (in_order_helper r @ ys))" by simp
  from sorted_wrt_drop_middle [OF this]
  have s2: "sorted_wrt (<) ((xs @ in_order_helper l) @ (in_order_helper r @ ys))"
    and knot: "k \<notin> set (xs @ in_order_helper l)"
    by simp_all
  from s2 i2 have o': "ordered (update_at a f ?t)" by (simp add: ordered_sorted)
  from remove1_middle [OF knot] i1 i2
  have r1: "in_order_helper (update_at a f ?t) = remove1 k (in_order_helper ?t)" by simp
  from L(2) n have a1: "addrs ?t = as @ addrs (Node a k l r p) @ bs" by simp
  from L(4) n have a2: "addrs (update_at a f ?t) = as @ addrs ?v @ bs" by simp
  from d a1 have "distinct (as @ addrs (Node a k l r p) @ bs)" by simp
  with ad sub have d': "distinct (as @ addrs ?v @ bs)" by auto
  from bound a1 a2 sub have bound': "\<forall>x \<in> set (addrs (update_at a f ?t)). x < next_addr s"
    by auto
  from a1 a2 len have ln: "length (addrs (update_at a f ?t)) = length (addrs ?t) - 1"
    and pos: "0 < length (addrs ?t)" by simp_all
  from sz word_of_nat_pred [OF pos] ln
  have sz': "tree_size s - 1 = of_nat (length (addrs (update_at a f ?t)))" by simp
  have po': "parents_ok None (update_at a f ?t)"
    using d po a par unfolding n [symmetric] by (rule update_at_parents_ok)
  from d' a2 bound' sz' po' have "wellformed (s\<lparr>root := update_at a f ?t, tree_size := tree_size s - 1\<rparr>)"
    by (simp add: wellformed_def list_all_iff)
  with o' r1 show ?thesis by simp
qed

lemma pre_increment_present:
  assumes "wellformed s" "a \<in> set (addrs (root s))"
  shows "\<exists>it. pre_increment s (make_iterator (Some a)) = Some (Inr it)"
proof -
  from assms(1) have d: "distinct (addrs (root s))" and po: "parents_ok None (root s)"
    by (simp_all add: wellformed_def)
  from assms(2) obtain xs ys where "addrs (root s) = xs @ a # ys" by (auto dest: split_list)
  from successor_correct [OF d po this] show ?thesis
    by (simp add: pre_increment_def make_iterator_def)
qed

lemma ordered_node_at: "ordered t \<Longrightarrow> ordered (node_at t a)"
  by (induction t) auto

lemma erase_present:
  assumes wf: "wellformed s" and o: "ordered (root s)" and c: "contains s k"
  shows "\<exists>it s'. erase k s = Some (Inr (it, s')) \<and> wellformed s' \<and> ordered (root s')
           \<and> in_order_traversal s' = remove1 k (in_order_traversal s)
           \<and> tree_size s' = tree_size s - 1"
proof -
  let ?t = "root s"
  from wf have d: "distinct (addrs ?t)" and po: "parents_ok None ?t"
    by (simp_all add: wellformed_def)
  from c obtain a where fa: "find_node ?t k = Some a" by (auto simp: contains_def)
  from find_node_in_addrs [OF fa] have a: "a \<in> set (addrs ?t)" .
  from find_node_node_at [OF d fa] obtain l r p where n: "node_at ?t a = Node a k l r p" by blast
  from pre_increment_present [OF wf a] obtain it where
    inc: "pre_increment s (make_iterator (Some a)) = Some (Inr it)" by blast
  from distinct_addrs_node_at [OF d, of a] n have dn: "distinct (addrs l @ a # addrs r)" by simp
  from parents_ok_node_at [OF po n] have pl: "parents_ok (Some a) l" and pr: "parents_ok (Some a) r"
    by simp_all
  consider (leaf) "l = Null" "r = Null" | (one) "l = Null \<or> r = Null" "\<not> (l = Null \<and> r = Null)"
    | (two) "l \<noteq> Null" "r \<noteq> Null" by blast
  then show ?thesis
  proof cases
    case leaf
    from parent_link_write [OF d po a, of Null] obtain lk where
      lk: "get_parent_link ?t a = Inr lk" "write_link lk Null ?t = update_at a (\<lambda>n. Null) ?t"
      by blast
    have e: "erase k s = Some (Inr (it, s\<lparr>root := update_at a (\<lambda>n. Null) ?t,
                                            tree_size := tree_size s - 1\<rparr>))"
      using fa inc n leaf lk by (simp add: erase_def detach_from_parent_def)
    have "wellformed (s\<lparr>root := update_at a (\<lambda>n. Null) ?t, tree_size := tree_size s - 1\<rparr>)
       \<and> ordered (update_at a (\<lambda>n. Null) ?t)
       \<and> in_order_helper (update_at a (\<lambda>n. Null) ?t) = remove1 k (in_order_helper ?t)"
      using wf o n by (rule replace_erased_node) (simp_all add: leaf)
    with e show ?thesis by (simp add: in_order_traversal_def)
  next
    case one
    let ?c = "if l \<noteq> Null then l else r"
    let ?v = "set_parent p ?c"
    from parent_link_write [OF d po a, of ?v] obtain lk where
      lk: "get_parent_link ?t a = Inr lk" "write_link lk ?v ?t = update_at a (\<lambda>n. ?v) ?t"
      by blast
    have e: "erase k s = Some (Inr (it, s\<lparr>root := update_at a (\<lambda>n. ?v) ?t,
                                            tree_size := tree_size s - 1\<rparr>))"
      using fa inc n one lk by (auto simp: erase_def)
    have "wellformed (s\<lparr>root := update_at a (\<lambda>n. ?v) ?t, tree_size := tree_size s - 1\<rparr>)
       \<and> ordered (update_at a (\<lambda>n. ?v) ?t)
       \<and> in_order_helper (update_at a (\<lambda>n. ?v) ?t) = remove1 k (in_order_helper ?t)"
      using wf o n
    proof (rule replace_erased_node)
      show "in_order_helper ?v = in_order_helper l @ in_order_helper r" using one by auto
      show "distinct (addrs ?v)" using dn by simp
      show "set (addrs ?v) \<subseteq> set (addrs (Node a k l r p))" by auto
      show "Suc (length (addrs ?v)) = length (addrs (Node a k l r p))" using one by auto
      show "parents_ok q' ?v" if "parents_ok q' (Node a k l r p)" for q'
        using that by (auto intro: parents_ok_set_parent)
    qed
    with e show ?thesis by (simp add: in_order_traversal_def)
  next
    case two
    from dn have dr: "distinct (addrs r)" by simp
    from find_min_node_at [OF dr two(2)] obtain mr mp where
      fm: "find_min r = Some (hd (addrs r))"
      and nm: "node_at r (hd (addrs r)) = Node (hd (addrs r)) (hd (in_order_helper r)) Null mr mp"
      by blast
    let ?m = "hd (addrs r)" and ?md = "hd (in_order_helper r)"
    from two(2) have mr: "?m \<in> set (addrs r)" by simp
    with dn have "?m \<notin> set (addrs l)" "?m \<noteq> a" by auto
    from node_at_right [OF this] have "node_at (Node a k l r p) ?m = node_at r ?m" .
    with subtree_node_at [OF d n, of ?m] mr nm
    have nm': "node_at ?t ?m = Node ?m ?md Null mr mp" by simp
    from ordered_node_at [OF o, of a] have "ordered (node_at ?t a)" .
    with n have orr: "ordered r" by simp
    from erase_node_recursive_min [OF orr two(2), of "tree_size s"] obtain r' where
      er: "erase_node_recursive r ?md (tree_size s) = (r', tree_size s - 1)"
      and ir: "in_order_helper r' = tl (in_order_helper r)"
      and ar: "addrs r' = tl (addrs r)"
      and pr': "\<forall>q. parents_ok q r \<longrightarrow> parents_ok q r'"
      by blast
    let ?f = "\<lambda>n. set_right r' (set_data ?md n)"
    have e: "erase k s = Some (Inr (it, s\<lparr>root := update_at a ?f ?t,
                                            tree_size := tree_size s - 1\<rparr>))"
      using fa inc n two fm nm' er by (simp add: erase_def update_at_twice)
    have "wellformed (s\<lparr>root := update_at a ?f ?t, tree_size := tree_size s - 1\<rparr>)
       \<and> ordered (update_at a ?f ?t)
       \<and> in_order_helper (update_at a ?f ?t) = remove1 k (in_order_helper ?t)"
      using wf o n
    proof (rule replace_erased_node)
      from two(2) have "in_order_helper r \<noteq> []" by simp
      then have "?md # tl (in_order_helper r) = in_order_helper r" by simp
      with ir show "in_order_helper (?f (Node a k l r p)) = in_order_helper l @ in_order_helper r"
        by simp
      from two(2) have ne: "addrs r \<noteq> []" by simp
      from dn ar show "distinct (addrs (?f (Node a k l r p)))"
        by (auto simp: distinct_tl dest: list.set_sel(2) [OF ne])
      from ar show "set (addrs (?f (Node a k l r p))) \<subseteq> set (addrs (Node a k l r p))"
        by (auto dest: list.set_sel(2) [OF ne])
      from ar ne show "Suc (length (addrs (?f (Node a k l r p)))) = length (addrs (Node a k l r p))"
        by simp
      show "parents_ok q' (?f (Node a k l r p))" if "parents_ok q' (Node a k l r p)" for q'
        using that pr' by simp
    qed
    with e show ?thesis by (simp add: in_order_traversal_def)
  qed
qed

section \<open>The ordering invariant; count and contents after erase\<close>

lemma tree_test_erase_built:
  "BinarySearchTree_ilist [50, 30, 70, 20, 40, 60, 80, 35, 45] = Inr tree_test_erase"
  by (simp add: BinarySearchTree_ilist_def BinarySearchTree_def insert_value_def emplace_def
      tree_test_erase_def)

lemma wellformed_tree_test_erase: "wellformed tree_test_erase"
  by (simp add: wellformed_def tree_test_erase_def)

lemma ordered_tree_test_erase: "ordered (root tree_test_erase)"
  by (simp add: tree_test_erase_def)

lemma wellformed_clear: "wellformed (clear s)"
  by (simp add: wellformed_def clear_def)

lemma ordered_distinct: "ordered t \<Longrightarrow> distinct (in_order_helper t)"
  by (simp add: ordered_sorted strict_sorted_iff)

text \<open>
  Claim C2. The ordering invariant (below every node, the left subtree holds strictly smaller
  values and the right subtree strictly greater ones, so no value occurs twice) holds after
  every mutating operation. It holds in the empty tree, and in a well-formed state where it
  holds, \<^verbatim>\<open>emplace\<close>, \<^verbatim>\<open>insert\<close>, \<^verbatim>\<open>erase\<close> (whichever of its cases runs: key absent, leaf,
  one child, two children) and \<^verbatim>\<open>clear\<close> return without a fault and leave a well-formed
  state in which it holds again.
\<close>

theorem ordering_invariant_preserved:
  fixes s :: "'a::linorder bstree"
  assumes "wellformed s" "ordered (root s)"
  shows "(\<exists>it b s'. emplace v s = Inr ((it, b), s') \<and> wellformed s' \<and> ordered (root s')
            \<and> distinct (in_order_traversal s'))
       \<and> (\<exists>it s'. insert_value v s = Inr (it, s') \<and> wellformed s' \<and> ordered (root s')
            \<and> distinct (in_order_traversal s'))
       \<and> (\<exists>it s'. erase k s = Some (Inr (it, s')) \<and> wellformed s' \<and> ordered (root s')
            \<and> distinct (in_order_traversal s'))
       \<and> wellformed (clear s) \<and> ordered (root (clear s))
       \<and> wellformed (BinarySearchTree :: 'a bstree)
       \<and> ordered (root (BinarySearchTree :: 'a bstree))"
proof -
  from emplace_correct [OF assms(1), of v] assms(2) obtain it b s' where
    e: "emplace v s = Inr ((it, b), s')" "wellformed s'" "ordered (root s')" by blast
  then have 1: "\<exists>it b s'. emplace v s = Inr ((it, b), s') \<and> wellformed s' \<and> ordered (root s')
            \<and> distinct (in_order_traversal s')"
    using ordered_distinct [of "root s'"] by (auto simp: in_order_traversal_def)
  from e have 2: "\<exists>it s'. insert_value v s = Inr (it, s') \<and> wellformed s' \<and> ordered (root s')
            \<and> distinct (in_order_traversal s')"
    using ordered_distinct [of "root s'"] by (auto simp: in_order_traversal_def insert_value_def)
  have 3: "\<exists>it s'. erase k s = Some (Inr (it, s')) \<and> wellformed s' \<and> ordered (root s')
            \<and> distinct (in_order_traversal s')"
  proof (cases "contains s k")
    case True
    from erase_present [OF assms True] obtain it s' where
      "erase k s = Some (Inr (it, s'))" "wellformed s'" "ordered (root s')" by blast
    then show ?thesis
      using ordered_distinct [of "root s'"] by (auto simp: in_order_traversal_def)
  next
    case False
    then have "erase k s = Some (Inr (end_it s, s))" by (simp add: erase_def contains_def)
    with assms show ?thesis
      using ordered_distinct [of "root s"] by (auto simp: in_order_traversal_def)
  qed
  have 4: "wellformed (clear s) \<and> ordered (root (clear s))"
    by (simp add: wellformed_clear) (simp add: clear_def)
  have 5: "wellformed (BinarySearchTree :: 'a bstree) \<and> ordered (root (BinarySearchTree :: 'a bstree))"
    by (simp add: wellformed_BinarySearchTree) (simp add: BinarySearchTree_def)
  from 1 2 3 4 5 show ?thesis by blast
qed

lemma erase_test_scenario:
  "\<exists>i1 s1 i2 s2 i3 s3.
      erase 20 tree_test_erase = Some (Inr (i1, s1)) \<and> in_order_traversal s1 = [30, 35, 40, 45, 50, 60, 70, 80]
    \<and> erase 30 s1 = Some (Inr (i2, s2)) \<and> in_order_traversal s2 = [35, 40, 45, 50, 60, 70, 80]
    \<and> erase 50 s2 = Some (Inr (i3, s3)) \<and> in_order_traversal s3 = [35, 40, 45, 60, 70, 80]
    \<and> size_of s3 = 6 \<and> ordered (root s3)"
  by (simp add: erase_def tree_test_erase_def pre_increment_def successor_def make_iterator_def
      in_order_traversal_def get_parent_link_def detach_from_parent_def climb_while_right.simps
      size_of_def)

theorem ordering_invariant_preserved_witness:
  "wellformed tree_test_erase \<and> ordered (root tree_test_erase)
   \<and> (\<exists>it s'. erase 50 tree_test_erase = Some (Inr (it, s')) \<and> wellformed s' \<and> ordered (root s'))
   \<and> (\<exists>it b s'. emplace 55 tree_test_erase = Inr ((it, b), s') \<and> wellformed s' \<and> ordered (root s'))"
  using ordering_invariant_preserved [OF wellformed_tree_test_erase ordered_tree_test_erase, of 55 50]
    wellformed_tree_test_erase ordered_tree_test_erase
  by blast

text \<open>
  Claim C4. If \<open>k\<close> is among the values of a well-formed, ordered tree, then \<^verbatim>\<open>erase(k)\<close>
  returns, the element count goes down by exactly one (in every structural case), and the
  contents afterwards are the contents before without \<open>k\<close>: exactly \<open>k\<close> is removed and every
  other element stays.
\<close>

theorem erase_present_count_and_contents:
  assumes "wellformed s" "ordered (root s)" "k \<in> set (in_order_traversal s)"
  shows "\<exists>it s'. erase k s = Some (Inr (it, s'))
           \<and> size_of s' = size_of s - 1
           \<and> length (in_order_traversal s') + 1 = length (in_order_traversal s)
           \<and> in_order_traversal s' = remove1 k (in_order_traversal s)
           \<and> set (in_order_traversal s') = set (in_order_traversal s) - {k}
           \<and> wellformed s'"
proof -
  from assms(2,3) have c: "contains s k"
    using find_node_iff [of "root s" k] by (simp add: contains_def in_order_traversal_def)
  from erase_present [OF assms(1,2) c] obtain it s' where
    e: "erase k s = Some (Inr (it, s'))" "wellformed s'"
       "in_order_traversal s' = remove1 k (in_order_traversal s)"
       "tree_size s' = tree_size s - 1"
    by blast
  from assms(2) have di: "distinct (in_order_traversal s)"
    by (simp add: in_order_traversal_def ordered_distinct)
  from e(3) di have st: "set (in_order_traversal s') = set (in_order_traversal s) - {k}"
    by simp
  from e(3) assms(3) have ln: "length (in_order_traversal s') + 1 = length (in_order_traversal s)"
    by (simp add: length_remove1) (cases "in_order_traversal s", auto)
  from e st ln show ?thesis by (auto simp: size_of_def)
qed

theorem erase_present_count_and_contents_witness:
  "wellformed tree_test_erase \<and> ordered (root tree_test_erase)
   \<and> 50 \<in> set (in_order_traversal tree_test_erase)
   \<and> size_of tree_test_erase = 9
   \<and> (\<exists>it s'. erase 50 tree_test_erase = Some (Inr (it, s'))
         \<and> size_of s' = 8
         \<and> in_order_traversal s' = [20, 30, 35, 40, 45, 60, 70, 80])"
proof -
  have m: "50 \<in> set (in_order_traversal tree_test_erase)"
    by (simp add: in_order_traversal_def tree_test_erase_def)
  have io: "remove1 50 (in_order_traversal tree_test_erase) = [20, 30, 35, 40, 45, 60, 70, 80]"
    by (simp add: in_order_traversal_def tree_test_erase_def)
  have sz: "size_of tree_test_erase = 9" by (simp add: size_of_def tree_test_erase_def)
  from erase_present_count_and_contents [OF wellformed_tree_test_erase ordered_tree_test_erase m]
  show ?thesis
    using wellformed_tree_test_erase ordered_tree_test_erase m
    unfolding io sz by auto
qed

section \<open>Rebuilding a tree from two of its traversals\<close>

lemma fill_inorder_map_other: "x \<notin> set xs \<Longrightarrow> fill_inorder_map xs j m x = m x"
  by (induction xs arbitrary: j m) auto

lemma fill_inorder_map_index:
  "distinct (us @ x # vs) \<Longrightarrow> fill_inorder_map (us @ x # vs) j m x = Some (j + int (length us))"
proof (induction us arbitrary: j m)
  case Nil
  then show ?case by (simp add: fill_inorder_map_other)
next
  case (Cons u us)
  then show ?case by simp
qed

lemma pre_order_length: "length (pre_order_helper t) = length (addrs t)"
  by (induction t) auto

lemma post_order_length: "length (post_order_helper t) = length (addrs t)"
  by (induction t) auto

lemma build_from_pre_in_correct:
  assumes d: "distinct ino"
  shows "ino = xs @ in_order_helper t @ ys \<Longrightarrow> pre = ps @ pre_order_helper t @ qs \<Longrightarrow>
     pre_idx = int (length ps) \<Longrightarrow> in_start = int (length xs) \<Longrightarrow>
     in_end = in_start + int (length (addrs t)) - 1 \<Longrightarrow>
     \<exists>t'. build_from_pre_in pre pre_idx (fill_inorder_map ino 0 Map.empty) in_start in_end par free
            = Some (Inr (t', pre_idx + int (length (addrs t)), free + length (addrs t)))
        \<and> in_order_helper t' = in_order_helper t
        \<and> pre_order_helper t' = pre_order_helper t
        \<and> post_order_helper t' = post_order_helper t
        \<and> parents_ok par t'
        \<and> distinct (addrs t')
        \<and> set (addrs t') = {free ..< free + length (addrs t)}"
proof (induction t arbitrary: xs ys ps qs pre_idx in_start in_end par free)
  case Null
  then show ?case by (subst build_from_pre_in.simps) simp
next
  case (Node a v l r p)
  let ?m = "fill_inorder_map ino 0 Map.empty"
  let ?nl = "length (addrs l)" and ?nr = "length (addrs r)"
  have il: "length (in_order_helper l) = ?nl" and ir: "length (in_order_helper r) = ?nr"
    by (simp_all add: in_order_length)
  have pl: "length (pre_order_helper l) = ?nl" by (simp add: pre_order_length)
  from Node.prems(1) have ino: "ino = (xs @ in_order_helper l) @ v # (in_order_helper r @ ys)"
    by simp
  from d have "distinct ((xs @ in_order_helper l) @ v # (in_order_helper r @ ys))"
    unfolding ino [symmetric] .
  from fill_inorder_map_index [OF this, of 0 Map.empty]
  have mv: "?m v = Some (in_start + int ?nl)"
    unfolding ino [symmetric] using Node.prems(4) il by simp
  have bounds: "\<not> in_start > in_end" "\<not> (pre_idx < 0 \<or> int (length pre) \<le> pre_idx)"
    using Node.prems(2,3,5) by simp_all
  have at: "pre ! nat pre_idx = v"
    using Node.prems(2,3) by (simp add: nth_append)
  from Node.IH(1) [of xs "v # in_order_helper r @ ys" "ps @ [v]" "pre_order_helper r @ qs"
      "pre_idx + 1" in_start "in_start + int ?nl - 1" "Some free" "free + 1"]
    Node.prems
  obtain l' where
    L: "build_from_pre_in pre (pre_idx + 1) ?m in_start (in_start + int ?nl - 1) (Some free) (free + 1)
          = Some (Inr (l', pre_idx + 1 + int ?nl, free + 1 + ?nl))"
       "in_order_helper l' = in_order_helper l" "pre_order_helper l' = pre_order_helper l"
       "post_order_helper l' = post_order_helper l" "parents_ok (Some free) l'"
       "distinct (addrs l')" "set (addrs l') = {free + 1 ..< free + 1 + ?nl}"
    by auto
  from Node.IH(2) [of "xs @ in_order_helper l @ [v]" ys "ps @ v # pre_order_helper l" qs
      "pre_idx + 1 + int ?nl" "in_start + int ?nl + 1" in_end "Some free" "free + 1 + ?nl"]
    Node.prems il pl
  obtain r' where
    R: "build_from_pre_in pre (pre_idx + 1 + int ?nl) ?m (in_start + int ?nl + 1) in_end (Some free)
          (free + 1 + ?nl)
          = Some (Inr (r', pre_idx + 1 + int ?nl + int ?nr, free + 1 + ?nl + ?nr))"
       "in_order_helper r' = in_order_helper r" "pre_order_helper r' = pre_order_helper r"
       "post_order_helper r' = post_order_helper r" "parents_ok (Some free) r'"
       "distinct (addrs r')" "set (addrs r') = {free + 1 + ?nl ..< free + 1 + ?nl + ?nr}"
    by auto
  have "build_from_pre_in pre pre_idx ?m in_start in_end par free
          = Some (Inr (Node free v l' r' par, pre_idx + int (length (addrs (Node a v l r p))),
                       free + length (addrs (Node a v l r p))))"
    by (subst build_from_pre_in.simps)
       (simp only: bounds at mv L(1) R(1) if_False option.case Option.bind.bind_lunit sum.case
          prod.case, simp)
  moreover have "distinct (addrs (Node free v l' r' par))"
    using L(6,7) R(6,7) by auto
  moreover have "set (addrs (Node free v l' r' par))
      = {free ..< free + length (addrs (Node a v l r p))}"
    using L(7) R(7) by auto
  ultimately show ?case using L(2-5) R(2-5) by simp
qed

lemma pre_order_Nil_iff [simp]: "pre_order_helper t = [] \<longleftrightarrow> t = Null"
  by (cases t) auto

lemma post_order_Nil_iff [simp]: "post_order_helper t = [] \<longleftrightarrow> t = Null"
  by (cases t) auto

lemma build_from_post_in_correct:
  assumes d: "distinct ino"
  shows "ino = xs @ in_order_helper t @ ys \<Longrightarrow> post = ps @ post_order_helper t @ qs \<Longrightarrow>
     post_idx = int (length ps) + int (length (addrs t)) - 1 \<Longrightarrow> in_start = int (length xs) \<Longrightarrow>
     in_end = in_start + int (length (addrs t)) - 1 \<Longrightarrow>
     \<exists>t'. build_from_post_in post post_idx (fill_inorder_map ino 0 Map.empty) in_start in_end par free
            = Some (Inr (t', int (length ps) - 1, free + length (addrs t)))
        \<and> in_order_helper t' = in_order_helper t
        \<and> pre_order_helper t' = pre_order_helper t
        \<and> post_order_helper t' = post_order_helper t
        \<and> parents_ok par t'
        \<and> distinct (addrs t')
        \<and> set (addrs t') = {free ..< free + length (addrs t)}"
proof (induction t arbitrary: xs ys ps qs post_idx in_start in_end par free)
  case Null
  then show ?case by (subst build_from_post_in.simps) simp
next
  case (Node a v l r p)
  let ?m = "fill_inorder_map ino 0 Map.empty"
  let ?nl = "length (addrs l)" and ?nr = "length (addrs r)"
  have il: "length (in_order_helper l) = ?nl" and ir: "length (in_order_helper r) = ?nr"
    by (simp_all add: in_order_length)
  have pl: "length (post_order_helper l) = ?nl" and pr: "length (post_order_helper r) = ?nr"
    by (simp_all add: post_order_length)
  from Node.prems(1) have ino: "ino = (xs @ in_order_helper l) @ v # (in_order_helper r @ ys)"
    by simp
  from d have "distinct ((xs @ in_order_helper l) @ v # (in_order_helper r @ ys))"
    unfolding ino [symmetric] .
  from fill_inorder_map_index [OF this, of 0 Map.empty]
  have mv: "?m v = Some (in_start + int ?nl)"
    unfolding ino [symmetric] using Node.prems(4) il by simp
  have bounds: "\<not> in_start > in_end" "\<not> (post_idx < 0 \<or> int (length post) \<le> post_idx)"
    using Node.prems(2,3,5) pl pr by simp_all
  from Node.prems(3) have "nat post_idx = length (ps @ post_order_helper l @ post_order_helper r)"
    using pl pr by simp
  with Node.prems(2) have at: "post ! nat post_idx = v"
    by (metis append.assoc append_Cons nth_append_length post_order_helper.simps(2))
  from Node.IH(2) [of "xs @ in_order_helper l @ [v]" ys "ps @ post_order_helper l" "v # qs"
      "post_idx - 1" "in_start + int ?nl + 1" in_end "Some free" "free + 1"]
    Node.prems il pl
  obtain r' where
    R: "build_from_post_in post (post_idx - 1) ?m (in_start + int ?nl + 1) in_end (Some free) (free + 1)
          = Some (Inr (r', int (length ps) + int ?nl - 1, free + 1 + ?nr))"
       "in_order_helper r' = in_order_helper r" "pre_order_helper r' = pre_order_helper r"
       "post_order_helper r' = post_order_helper r" "parents_ok (Some free) r'"
       "distinct (addrs r')" "set (addrs r') = {free + 1 ..< free + 1 + ?nr}"
    by auto
  from Node.IH(1) [of xs "v # in_order_helper r @ ys" ps "post_order_helper r @ v # qs"
      "int (length ps) + int ?nl - 1" in_start "in_start + int ?nl - 1" "Some free" "free + 1 + ?nr"]
    Node.prems
  obtain l' where
    L: "build_from_post_in post (int (length ps) + int ?nl - 1) ?m in_start (in_start + int ?nl - 1)
          (Some free) (free + 1 + ?nr)
          = Some (Inr (l', int (length ps) - 1, free + 1 + ?nr + ?nl))"
       "in_order_helper l' = in_order_helper l" "pre_order_helper l' = pre_order_helper l"
       "post_order_helper l' = post_order_helper l" "parents_ok (Some free) l'"
       "distinct (addrs l')" "set (addrs l') = {free + 1 + ?nr ..< free + 1 + ?nr + ?nl}"
    by auto
  have "build_from_post_in post post_idx ?m in_start in_end par free
          = Some (Inr (Node free v l' r' par, int (length ps) - 1,
                       free + length (addrs (Node a v l r p))))"
    by (subst build_from_post_in.simps)
       (simp only: bounds at mv L(1) R(1) if_False option.case Option.bind.bind_lunit sum.case
          prod.case, simp)
  moreover have "distinct (addrs (Node free v l' r' par))"
    using L(6,7) R(6,7) by auto
  moreover have "set (addrs (Node free v l' r' par))
      = {free ..< free + length (addrs (Node a v l r p))}"
    using L(7) R(7) by auto
  ultimately show ?case using L(2-5) R(2-5) by simp
qed

lemma BinarySearchTree_pre_in_correct:
  assumes "distinct (in_order_traversal s)"
  shows "\<exists>s'. BinarySearchTree_pre_in (pre_order_traversal s) (in_order_traversal s) = Some (Inr s')
           \<and> wellformed s'
           \<and> in_order_traversal s' = in_order_traversal s
           \<and> pre_order_traversal s' = pre_order_traversal s
           \<and> post_order_traversal s' = post_order_traversal s"
proof (cases "root s = Null")
  case True
  then show ?thesis
    by (simp add: BinarySearchTree_pre_in_def in_order_traversal_def pre_order_traversal_def
        post_order_traversal_def BinarySearchTree_def wellformed_def)
next
  case False
  let ?t = "root s"
  from assms have d: "distinct (in_order_helper ?t)" by (simp add: in_order_traversal_def)
  from build_from_pre_in_correct [OF d, of "[]" ?t "[]" "pre_order_helper ?t" "[]" "[]" 0 0
      "int (length (in_order_helper ?t)) - 1" None 0]
  obtain t' where
    B: "build_from_pre_in (pre_order_helper ?t) 0 (fill_inorder_map (in_order_helper ?t) 0 Map.empty)
          0 (int (length (in_order_helper ?t)) - 1) None 0
          = Some (Inr (t', int (length (addrs ?t)), length (addrs ?t)))"
       "in_order_helper t' = in_order_helper ?t" "pre_order_helper t' = pre_order_helper ?t"
       "post_order_helper t' = post_order_helper ?t" "parents_ok None t'"
       "distinct (addrs t')" "set (addrs t') = {0 ..< length (addrs ?t)}"
    by (auto simp: in_order_length)
  from B(2) have len: "length (addrs t') = length (addrs ?t)"
    using in_order_length [of t'] in_order_length [of ?t] by simp
  let ?s' = "\<lparr>root = t', tree_size = of_nat (length (pre_order_helper ?t)),
              next_addr = length (addrs ?t)\<rparr>"
  have "BinarySearchTree_pre_in (pre_order_traversal s) (in_order_traversal s) = Some (Inr ?s')"
    using False B(1)
    by (simp add: BinarySearchTree_pre_in_def in_order_traversal_def pre_order_traversal_def
        pre_order_length in_order_length)
  moreover have "wellformed ?s'"
    using B(5,6,7) len by (simp add: wellformed_def list_all_iff pre_order_length)
  ultimately show ?thesis
    using B(2,3,4)
    by (simp add: in_order_traversal_def pre_order_traversal_def post_order_traversal_def)
qed

lemma BinarySearchTree_in_post_correct:
  assumes "distinct (in_order_traversal s)"
  shows "\<exists>s'. BinarySearchTree_in_post (in_order_traversal s) (post_order_traversal s) = Some (Inr s')
           \<and> wellformed s'
           \<and> in_order_traversal s' = in_order_traversal s
           \<and> pre_order_traversal s' = pre_order_traversal s
           \<and> post_order_traversal s' = post_order_traversal s"
proof (cases "root s = Null")
  case True
  then show ?thesis
    by (simp add: BinarySearchTree_in_post_def in_order_traversal_def pre_order_traversal_def
        post_order_traversal_def BinarySearchTree_def wellformed_def)
next
  case False
  let ?t = "root s"
  from assms have d: "distinct (in_order_helper ?t)" by (simp add: in_order_traversal_def)
  from build_from_post_in_correct [OF d, of "[]" ?t "[]" "post_order_helper ?t" "[]" "[]"
      "int (length (post_order_helper ?t)) - 1" 0 "int (length (in_order_helper ?t)) - 1" None 0]
  obtain t' where
    B: "build_from_post_in (post_order_helper ?t) (int (length (post_order_helper ?t)) - 1)
          (fill_inorder_map (in_order_helper ?t) 0 Map.empty)
          0 (int (length (in_order_helper ?t)) - 1) None 0
          = Some (Inr (t', - 1, length (addrs ?t)))"
       "in_order_helper t' = in_order_helper ?t" "pre_order_helper t' = pre_order_helper ?t"
       "post_order_helper t' = post_order_helper ?t" "parents_ok None t'"
       "distinct (addrs t')" "set (addrs t') = {0 ..< length (addrs ?t)}"
    by (auto simp: in_order_length post_order_length)
  from B(2) have len: "length (addrs t') = length (addrs ?t)"
    using in_order_length [of t'] in_order_length [of ?t] by simp
  let ?s' = "\<lparr>root = t', tree_size = of_nat (length (post_order_helper ?t)),
              next_addr = length (addrs ?t)\<rparr>"
  have "BinarySearchTree_in_post (in_order_traversal s) (post_order_traversal s) = Some (Inr ?s')"
    using False B(1)
    by (simp add: BinarySearchTree_in_post_def in_order_traversal_def post_order_traversal_def
        post_order_length in_order_length)
  moreover have "wellformed ?s'"
    using B(5,6,7) len by (simp add: wellformed_def list_all_iff post_order_length)
  ultimately show ?thesis
    using B(2,3,4)
    by (simp add: in_order_traversal_def pre_order_traversal_def post_order_traversal_def)
qed

text \<open>
  Claim C7. Round trip through the builders: for every tree (its values are distinct, as in
  every tree that satisfies the ordering invariant), the constructor applied to the tree's
  pre-order and in-order sequences returns a tree whose post-order traversal is the original
  tree's post-order sequence, and the constructor applied to the in-order and post-order
  sequences returns a tree whose pre-order traversal is the original pre-order sequence.
\<close>

theorem builder_round_trip:
  assumes "distinct (in_order_traversal s)"
  shows "(\<exists>s'. BinarySearchTree_pre_in (pre_order_traversal s) (in_order_traversal s) = Some (Inr s')
            \<and> post_order_traversal s' = post_order_traversal s)
       \<and> (\<exists>s'. BinarySearchTree_in_post (in_order_traversal s) (post_order_traversal s) = Some (Inr s')
            \<and> pre_order_traversal s' = pre_order_traversal s)"
  using BinarySearchTree_pre_in_correct [OF assms] BinarySearchTree_in_post_correct [OF assms]
  by blast

theorem builder_round_trip_witness:
  "distinct (in_order_traversal tree_10_5_15_3_7_12_18)
   \<and> pre_order_traversal tree_10_5_15_3_7_12_18 = [10, 5, 3, 7, 15, 12, 18]
   \<and> in_order_traversal tree_10_5_15_3_7_12_18 = [3, 5, 7, 10, 12, 15, 18]
   \<and> post_order_traversal tree_10_5_15_3_7_12_18 = [3, 7, 5, 12, 18, 15, 10]
   \<and> (\<exists>s'. BinarySearchTree_pre_in [10, 5, 3, 7, 15, 12, 18 :: int] [3, 5, 7, 10, 12, 15, 18] = Some (Inr s')
         \<and> post_order_traversal s' = [3, 7, 5, 12, 18, 15, 10])
   \<and> (\<exists>s'. BinarySearchTree_in_post [3, 5, 7, 10, 12, 15, 18 :: int] [3, 7, 5, 12, 18, 15, 10] = Some (Inr s')
         \<and> pre_order_traversal s' = [10, 5, 3, 7, 15, 12, 18])"
proof -
  have pre: "pre_order_traversal tree_10_5_15_3_7_12_18 = [10, 5, 3, 7, 15, 12, 18]"
    by (simp add: pre_order_traversal_def tree_10_5_15_3_7_12_18_def)
  have ino: "in_order_traversal tree_10_5_15_3_7_12_18 = [3, 5, 7, 10, 12, 15, 18]"
    by (simp add: in_order_traversal_def tree_10_5_15_3_7_12_18_def)
  have post: "post_order_traversal tree_10_5_15_3_7_12_18 = [3, 7, 5, 12, 18, 15, 10]"
    by (simp add: post_order_traversal_def tree_10_5_15_3_7_12_18_def)
  have d: "distinct (in_order_traversal tree_10_5_15_3_7_12_18)" by (simp add: ino)
  from builder_round_trip [OF d] d show ?thesis unfolding pre ino post by simp
qed

section \<open>The iterator returned by erase\<close>

lemma erase_two_children_returns_dangling:
  assumes wf: "wellformed s" and o: "ordered (root s)"
    and fa: "find_node (root s) k = Some a"
    and n: "node_at (root s) a = Node a k l r p"
    and two: "l \<noteq> Null" "r \<noteq> Null"
  shows "\<exists>it s'. erase k s = Some (Inr (it, s')) \<and> ptr it = find_min r
           \<and> deref s' it = Inl DanglingPointer"
proof -
  let ?t = "root s"
  from wf have d: "distinct (addrs ?t)" by (simp add: wellformed_def)
  from find_node_in_addrs [OF fa] have a: "a \<in> set (addrs ?t)" .
  from distinct_addrs_node_at [OF d, of a] n have dn: "distinct (addrs l @ a # addrs r)" by simp
  then have dr: "distinct (addrs r)" by simp
  from find_min_node_at [OF dr two(2)] obtain mr mp where
    fm: "find_min r = Some (hd (addrs r))"
    and nm: "node_at r (hd (addrs r)) = Node (hd (addrs r)) (hd (in_order_helper r)) Null mr mp"
    by blast
  let ?m = "hd (addrs r)" and ?md = "hd (in_order_helper r)"
  have inc: "pre_increment s (make_iterator (Some a)) = Some (Inr (make_iterator (Some ?m)))"
    using n two(2) fm by (simp add: pre_increment_def successor_def make_iterator_def)
  from two(2) have ne: "addrs r \<noteq> []" by simp
  then have mr: "?m \<in> set (addrs r)" by simp
  with dn have "?m \<notin> set (addrs l)" "?m \<noteq> a" by auto
  from node_at_right [OF this] have "node_at (Node a k l r p) ?m = node_at r ?m" .
  with subtree_node_at [OF d n, of ?m] mr nm
  have nm': "node_at ?t ?m = Node ?m ?md Null mr mp" by simp
  from ordered_node_at [OF o, of a] n have orr: "ordered r" by simp
  from erase_node_recursive_min [OF orr two(2), of "tree_size s"] obtain r' where
    er: "erase_node_recursive r ?md (tree_size s) = (r', tree_size s - 1)"
    and ar: "addrs r' = tl (addrs r)"
    by blast
  let ?f = "\<lambda>n. set_right r' (set_data ?md n)"
  let ?s' = "s\<lparr>root := update_at a ?f ?t, tree_size := tree_size s - 1\<rparr>"
  have e: "erase k s = Some (Inr (make_iterator (Some ?m), ?s'))"
    using fa inc n two fm nm' er by (simp add: erase_def update_at_twice)
  from update_at_lists [OF d a, of ?f] obtain as bs where
    "addrs ?t = as @ addrs (node_at ?t a) @ bs"
    "addrs (update_at a ?f ?t) = as @ addrs (?f (node_at ?t a)) @ bs"
    by blast
  with n ar have a1: "addrs ?t = as @ (addrs l @ a # addrs r) @ bs"
    and a2: "addrs (update_at a ?f ?t) = as @ (addrs l @ a # tl (addrs r)) @ bs" by simp_all
  from ne have "addrs r = ?m # tl (addrs r)" by simp
  with a1 have "addrs ?t = as @ (addrs l @ a # ?m # tl (addrs r)) @ bs" by simp
  with d have "distinct (as @ (addrs l @ a # ?m # tl (addrs r)) @ bs)" by simp
  then have "?m \<notin> set (as @ (addrs l @ a # tl (addrs r)) @ bs)" by auto
  with a2 have "?m \<notin> set (addrs (update_at a ?f ?t))" by simp
  from node_at_absent [OF this]
  have "deref ?s' (make_iterator (Some ?m)) = Inl DanglingPointer"
    by (simp add: deref_def make_iterator_def del: node_at_Null_iff)
  with e fm show ?thesis by (simp add: make_iterator_def)
qed

lemma erase_at_most_one_child_returns_successor:
  assumes wf: "wellformed s" and o: "ordered (root s)"
    and fa: "find_node (root s) k = Some a"
    and n: "node_at (root s) a = Node a k l r p"
    and one: "l = Null \<or> r = Null"
    and sp: "in_order_traversal s = us @ k # vs"
  shows "\<exists>it s'. erase k s = Some (Inr (it, s'))
           \<and> (case vs of [] \<Rightarrow> ptr it = None | v # ws \<Rightarrow> deref s' it = Inr v)"
proof -
  let ?t = "root s"
  from wf have d: "distinct (addrs ?t)" and po: "parents_ok None ?t"
    by (simp_all add: wellformed_def)
  from find_node_in_addrs [OF fa] have a: "a \<in> set (addrs ?t)" .
  then obtain xs ys where xy: "addrs ?t = xs @ a # ys" by (auto dest: split_list)
  let ?it = "make_iterator (case ys of [] \<Rightarrow> None | y # zs \<Rightarrow> Some y)"
  from successor_correct [OF d po xy]
  have inc: "pre_increment s (make_iterator (Some a)) = Some (Inr ?it)"
    by (simp add: pre_increment_def make_iterator_def)
  from distinct_addrs_node_at [OF d, of a] n have dn: "distinct (addrs l @ a # addrs r)" by simp
  let ?v = "set_parent p (if l \<noteq> Null then l else r)"
  let ?s' = "s\<lparr>root := update_at a (\<lambda>n. ?v) ?t, tree_size := tree_size s - 1\<rparr>"
  from parent_link_write [OF d po a, of ?v] obtain lk where
    lk: "get_parent_link ?t a = Inr lk" "write_link lk ?v ?t = update_at a (\<lambda>n. ?v) ?t"
    by blast
  have e: "erase k s = Some (Inr (?it, ?s'))"
  proof (cases "l = Null \<and> r = Null")
    case True
    with fa inc n lk show ?thesis by (simp add: erase_def detach_from_parent_def)
  next
    case False
    with fa inc n one lk show ?thesis by (auto simp: erase_def)
  qed
  have R: "wellformed ?s' \<and> ordered (update_at a (\<lambda>n. ?v) ?t)
       \<and> in_order_helper (update_at a (\<lambda>n. ?v) ?t) = remove1 k (in_order_helper ?t)"
    using wf o n
  proof (rule replace_erased_node)
    show "in_order_helper ?v = in_order_helper l @ in_order_helper r" using one by auto
    show "distinct (addrs ?v)" using dn by simp
    show "set (addrs ?v) \<subseteq> set (addrs (Node a k l r p))" by auto
    show "Suc (length (addrs ?v)) = length (addrs (Node a k l r p))" using one by auto
    show "parents_ok q' ?v" if "parents_ok q' (Node a k l r p)" for q'
      using that by (auto intro: parents_ok_set_parent)
  qed
  then have d': "distinct (addrs (update_at a (\<lambda>n. ?v) ?t))" by (simp add: wellformed_def)
  from o have di: "distinct (in_order_helper ?t)" by (rule ordered_distinct)
  from sp have io: "in_order_helper ?t = us @ k # vs" by (simp add: in_order_traversal_def)
  with di have "k \<notin> set us" by simp
  from remove1_middle [OF this] R io
  have io': "in_order_helper (update_at a (\<lambda>n. ?v) ?t) = us @ vs" by simp
  from update_at_lists [OF d a, of "\<lambda>n. ?v"] obtain as bs where
    "addrs ?t = as @ addrs (node_at ?t a) @ bs"
    "addrs (update_at a (\<lambda>n. ?v) ?t) = as @ addrs ?v @ bs"
    by blast
  with n one have a1: "addrs ?t = (as @ addrs l) @ a # (addrs r @ bs)"
    and a2: "addrs (update_at a (\<lambda>n. ?v) ?t) = (as @ addrs l) @ (addrs r @ bs)" by auto
  from d xy have dxy: "distinct (xs @ a # ys)" by simp
  from xy a1 have e1: "xs @ a # ys = (as @ addrs l) @ a # (addrs r @ bs)" by simp
  from split_at_unique [OF dxy e1] have "xs = as @ addrs l" "ys = addrs r @ bs" by simp_all
  with a2 have ad': "addrs (update_at a (\<lambda>n. ?v) ?t) = xs @ ys" by simp
  have lxs: "length xs < length (addrs ?t)" using xy by simp
  from node_at_nth [OF d lxs] xy n have "in_order_helper ?t ! length xs = k" by simp
  moreover have "in_order_helper ?t ! length us = k" using io by simp
  moreover have "length xs < length (in_order_helper ?t)" using lxs by (simp add: in_order_length)
  moreover have "length us < length (in_order_helper ?t)" using io by simp
  ultimately have len: "length xs = length us"
    using nth_eq_iff_index_eq [OF di, of "length xs" "length us"] by simp
  have tot: "length (us @ k # vs) = length (xs @ a # ys)"
    using io xy in_order_length [of ?t] by simp
  show ?thesis
  proof (cases ys)
    case Nil
    with tot len have "vs = []" by simp
    with e Nil show ?thesis by (simp add: make_iterator_def)
  next
    case (Cons y zs)
    with tot len obtain v ws where vs: "vs = v # ws" by (cases vs) auto
    have j: "length xs < length (addrs (update_at a (\<lambda>n. ?v) ?t))" using ad' Cons by simp
    from node_at_nth [OF d' j] ad' io' Cons vs len
    obtain l' r' p' where "node_at (update_at a (\<lambda>n. ?v) ?t) y = Node y v l' r' p'"
      by (auto simp: nth_append)
    then have "deref ?s' ?it = Inr v" using Cons by (simp add: deref_def make_iterator_def)
    with e vs show ?thesis by auto
  qed
qed

lemma erase_leaf_and_one_child_examples:
  "\<exists>i1 s1 i2 s2.
      erase 20 tree_test_erase = Some (Inr (i1, s1)) \<and> deref s1 i1 = Inr 30
    \<and> erase 30 s1 = Some (Inr (i2, s2)) \<and> deref s2 i2 = Inr 35"
  by (simp add: erase_def tree_test_erase_def pre_increment_def successor_def make_iterator_def
      get_parent_link_def detach_from_parent_def climb_while_right.simps deref_def)

text \<open>
  Claim C3 (\<^verbatim>\<open>erase(k)\<close> returns a valid iterator to the in-order successor of \<open>k\<close> in all
  three cases). The iterator is computed before the structural change. When the erased node
  has at most one child it is right (\<open>erase_at_most_one_child_returns_successor\<close>). When the
  node has two children, the iterator points to the leftmost node of the right subtree, and
  that is the node \<^verbatim>\<open>erase_node_recursive\<close> releases after its value was moved up
  (\<open>erase_two_children_returns_dangling\<close>). In the tree built from 50, 30, 70 the node of 50
  has two children: after \<^verbatim>\<open>erase(50)\<close> the tree holds 30 and 70, and reading through the
  returned iterator is a read through a dangling pointer.
\<close>

theorem erase_two_children_dangling:
  "\<exists>it s'. erase 50 tree_50_30_70 = Some (Inr (it, s'))
      \<and> in_order_traversal s' = [30, 70]
      \<and> deref s' it = Inl DanglingPointer"
  by (simp add: erase_def tree_50_30_70_def pre_increment_def successor_def make_iterator_def
      in_order_traversal_def deref_def)

end
